theory Spec2Isabelle
  imports Main "HOL-Library.AList"
begin

section \<open>The keep-alive component of src/core/components/keep-alive.js\<close>

text \<open>
  The component keeps the instances of the child components it has rendered in
  \<open>this.cache\<close> (an object from cache key to entry) and the keys in use in \<open>this.keys\<close>
  (an array, least recently used first). The theory embeds the functions of the file as
  functions on a record of the component's fields. Mutation is explicit state passing;
  the calls of \<open>$destroy\<close> on component instances, which belong to the host, are
  recorded in the order they are issued in the field \<open>destroy_calls\<close>.
\<close>

subsection \<open>JavaScript values\<close>

text \<open>
  A value of Flow type \<open>?string\<close> is a \<open>string option\<close>: \<open>None\<close> stands for \<open>null\<close> and
  \<open>undefined\<close>. Such a value is truthy when it is a string that is not empty.
\<close>

definition truthy :: "string option \<Rightarrow> bool" where
  "truthy s = (case s of None \<Rightarrow> False | Some t \<Rightarrow> t \<noteq> [])"

text \<open>\<open>Array.prototype.indexOf\<close>: the first index of the item, \<open>-1\<close> when there is none.\<close>

fun indexOf :: "'a list \<Rightarrow> 'a \<Rightarrow> int" where
  "indexOf [] x = - 1"
| "indexOf (y # ys) x =
     (if y = x then 0 else (let i = indexOf ys x in if i < 0 then - 1 else i + 1))"

text \<open>\<open>String.prototype.split(',')\<close>: the parts between the commas; one part more than commas.\<close>

fun split_comma :: "string \<Rightarrow> string list" where
  "split_comma [] = [[]]"
| "split_comma (c # cs) =
     (if c = CHR '','' then [] # split_comma cs
      else (case split_comma cs of [] \<Rightarrow> [[c]] | p # ps \<Rightarrow> (c # p) # ps))"

text \<open>
  The decimal numeral of a natural number, which is what \<open>cid + ''\<close> yields for the
  numeric constructor id.
\<close>

definition digit_char :: "nat \<Rightarrow> char" where
  "digit_char d = ''0123456789'' ! d"

fun string_of_nat :: "nat \<Rightarrow> string" where
  "string_of_nat n =
     (if n < 10 then [digit_char n] else string_of_nat (n div 10) @ [digit_char (n mod 10)])"

declare string_of_nat.simps [simp del]

text \<open>
  \<open>parseInt\<close> with no radix on a string: leading white space (of the ASCII range) is
  skipped, a sign is read, a prefix \<open>0x\<close> or \<open>0X\<close> selects radix 16, and the longest run of
  digits of the radix is the value; with no digit the result is \<open>NaN\<close>, here \<open>None\<close>. A
  comparison with \<open>NaN\<close> is false.
\<close>

definition is_white_space :: "char \<Rightarrow> bool" where
  "is_white_space c = (of_char c \<in> {9, 10, 11, 12, 13, 32 :: nat})"

definition digit_value :: "char \<Rightarrow> nat option" where
  "digit_value c =
     (let n = (of_char c :: nat) in
      if 48 \<le> n \<and> n \<le> 57 then Some (n - 48)
      else if 97 \<le> n \<and> n \<le> 122 then Some (n - 87)
      else if 65 \<le> n \<and> n \<le> 90 then Some (n - 55)
      else None)"

definition is_digit_of :: "nat \<Rightarrow> char \<Rightarrow> bool" where
  "is_digit_of radix c = (case digit_value c of None \<Rightarrow> False | Some d \<Rightarrow> d < radix)"

definition digits_value :: "nat \<Rightarrow> string \<Rightarrow> nat" where
  "digits_value radix ds =
     foldl (\<lambda>acc c. acc * radix + (case digit_value c of None \<Rightarrow> 0 | Some d \<Rightarrow> d)) 0 ds"

definition parseInt_digits :: "int \<Rightarrow> nat \<Rightarrow> string \<Rightarrow> int option" where
  "parseInt_digits sign radix s =
     (let ds = takeWhile (is_digit_of radix) s in
      if ds = [] then None else Some (sign * int (digits_value radix ds)))"

fun parseInt_radix :: "int \<Rightarrow> string \<Rightarrow> int option" where
  "parseInt_radix sign (a # b # s) =
     (if a = CHR ''0'' \<and> (b = CHR ''x'' \<or> b = CHR ''X'') then parseInt_digits sign 16 s
      else parseInt_digits sign 10 (a # b # s))"
| "parseInt_radix sign s = parseInt_digits sign 10 s"

fun parseInt_sign :: "string \<Rightarrow> int option" where
  "parseInt_sign [] = None"
| "parseInt_sign (c # s) =
     (if c = CHR ''-'' then parseInt_radix (- 1) s
      else if c = CHR ''+'' then parseInt_radix 1 s
      else parseInt_radix 1 (c # s))"

definition parseInt_string :: "string \<Rightarrow> int option" where
  "parseInt_string s = parseInt_sign (dropWhile is_white_space s)"

subsection \<open>The data of the component\<close>

text \<open>
  The prop \<open>max\<close> is declared as \<open>[String, Number]\<close>. A number is taken to be an integer
  below \<open>10^21\<close> in size, which \<open>parseInt\<close> returns as it is.
\<close>

datatype max_prop = MaxUndefined | MaxNumber int | MaxString string

definition truthy_max :: "max_prop \<Rightarrow> bool" where
  "truthy_max m =
     (case m of MaxUndefined \<Rightarrow> False | MaxNumber n \<Rightarrow> n \<noteq> 0 | MaxString s \<Rightarrow> s \<noteq> [])"

definition parseInt :: "max_prop \<Rightarrow> int option" where
  "parseInt m =
     (case m of MaxUndefined \<Rightarrow> None | MaxNumber n \<Rightarrow> Some n | MaxString s \<Rightarrow> parseInt_string s)"

text \<open>
  The props \<open>include\<close> and \<open>exclude\<close> are declared as \<open>[String, RegExp, Array]\<close>. A regular
  expression is represented by its \<open>test\<close> method, a predicate on strings (an expression
  without the global and the sticky flag, whose \<open>test\<close> keeps no state). \<open>PUndefined\<close> is
  the prop that is not set; \<open>PObject\<close> is any other value that is none of the three shapes.
\<close>

datatype pattern =
    PArray "string list"
  | PString string
  | PRegExp "string \<Rightarrow> bool"
  | PUndefined
  | PObject

definition truthy_pattern :: "pattern \<Rightarrow> bool" where
  "truthy_pattern p = (case p of PString s \<Rightarrow> s \<noteq> [] | PUndefined \<Rightarrow> False | _ \<Rightarrow> True)"

text \<open>A component instance is a reference, here a number.\<close>

type_synonym component = nat

record component_ctor =
  Ctor_cid :: nat
  Ctor_options_name :: "string option"

record vnode_component_options =
  opts_Ctor :: component_ctor
  opts_tag :: "string option"

text \<open>
  The fields of a render-tree node that the file reads or writes. \<open>vnode_keepAlive\<close> is
  \<open>vnode.data.keepAlive\<close>. The host creates the instance of a node that is not served
  from the cache after \<open>render\<close> has returned and before it calls \<open>mounted\<close> or
  \<open>updated\<close>; \<open>render\<close> does not read the field on that path, so a node carries the
  instance the host gives it from the start.
\<close>

record vnode =
  vnode_key :: "string option"
  vnode_tag :: "string option"
  vnode_componentInstance :: component
  vnode_componentOptions :: "vnode_component_options option"
  vnode_keepAlive :: bool

record cache_entry =
  entry_name :: "string option"
  entry_tag :: "string option"
  entry_componentInstance :: component

text \<open>
  \<open>CacheEntryMap\<close>: an object without prototype, as the list of its own properties in the
  order of their creation. A property holds an entry or \<open>null\<close>; assignment to an existing
  property keeps its place. A cache key is a string, as the file annotates it
  (\<open>key: ?string\<close>, \<open>keys: Array<string>\<close>).
\<close>

type_synonym cache_entry_map = "(string \<times> cache_entry option) list"

definition cache_get :: "cache_entry_map \<Rightarrow> string \<Rightarrow> cache_entry option" where
  "cache_get cache key = (case map_of cache key of Some (Some entry) \<Rightarrow> Some entry | _ \<Rightarrow> None)"

record keep_alive =
  cache :: cache_entry_map
  keys :: "string list"
  vnodeToCache :: "vnode option"
  keyToCache :: string
  vm_vnode :: "vnode option"
  prop_include :: pattern
  prop_exclude :: pattern
  prop_max :: max_prop
  destroy_calls :: "component list"

subsection \<open>The order of a for-in loop\<close>

text \<open>
  A for-in loop over an object visits the properties that are array indices (the decimal
  numerals of the numbers below \<open>2^32 - 1\<close>) in ascending order and then the other
  properties in the order of their creation.
\<close>

definition is_decimal :: "string \<Rightarrow> bool" where
  "is_decimal s = (s \<noteq> [] \<and> list_all (is_digit_of 10) s)"

definition is_array_index :: "string \<Rightarrow> bool" where
  "is_array_index s =
     (is_decimal s \<and> (s = ''0'' \<or> take 1 s \<noteq> ''0'') \<and> digits_value 10 s < 4294967295)"

definition for_in_keys :: "cache_entry_map \<Rightarrow> string list" where
  "for_in_keys obj =
     (let ks = map fst obj in
      sort_key (digits_value 10) (filter is_array_index ks)
        @ filter (\<lambda>k. \<not> is_array_index k) ks)"

subsection \<open>The functions of the file\<close>

definition getComponentName :: "vnode_component_options option \<Rightarrow> string option" where
  "getComponentName opts =
     (case opts of
        None \<Rightarrow> None
      | Some co \<Rightarrow>
          (if truthy (Ctor_options_name (opts_Ctor co)) then Ctor_options_name (opts_Ctor co)
           else opts_tag co))"

fun matches :: "pattern \<Rightarrow> string \<Rightarrow> bool" where
  "matches (PArray xs) name = (indexOf xs name > - 1)"
| "matches (PString s) name = (indexOf (split_comma s) name > - 1)"
| "matches (PRegExp test) name = test name"
| "matches PUndefined name = False"
| "matches PObject name = False"

text \<open>
  Modelled from the spec: \<open>remove(arr, item)\<close> of shared/util, which is not part of the
  sources at hand. It takes the item out of the sequence: its first occurrence, when
  there is one.
\<close>

definition remove :: "string list \<Rightarrow> string \<Rightarrow> string list" where
  "remove arr item = remove1 item arr"

text \<open>
  \<open>pruneCacheEntry(cache, key, keys, current)\<close>. Every call of the file passes the cache
  and the keys of the component itself, so the function works on the component's record.
\<close>

definition pruneCacheEntry :: "string \<Rightarrow> vnode option \<Rightarrow> keep_alive \<Rightarrow> keep_alive" where
  "pruneCacheEntry key current vm =
     (let calls =
        (case cache_get (cache vm) key of
           None \<Rightarrow> destroy_calls vm
         | Some entry \<Rightarrow>
             (if (case current of None \<Rightarrow> True | Some cur \<Rightarrow> entry_tag entry \<noteq> vnode_tag cur)
              then destroy_calls vm @ [entry_componentInstance entry]
              else destroy_calls vm))
      in vm\<lparr>cache := AList.update key None (cache vm),
            keys := remove (keys vm) key,
            destroy_calls := calls\<rparr>)"

text \<open>The body of the loop of \<open>pruneCache\<close>, for one key.\<close>

definition pruneCache_step ::
  "vnode option \<Rightarrow> (string \<Rightarrow> bool) \<Rightarrow> keep_alive \<Rightarrow> string \<Rightarrow> keep_alive" where
  "pruneCache_step current filter_fn vm key =
     (case cache_get (cache vm) key of
        None \<Rightarrow> vm
      | Some entry \<Rightarrow>
          (case entry_name entry of
             None \<Rightarrow> vm
           | Some name \<Rightarrow>
               (if name \<noteq> [] \<and> \<not> filter_fn name then pruneCacheEntry key current vm else vm)))"

definition pruneCache :: "keep_alive \<Rightarrow> (string \<Rightarrow> bool) \<Rightarrow> keep_alive" where
  "pruneCache keepAliveInstance filter_fn =
     foldl (pruneCache_step (vm_vnode keepAliveInstance) filter_fn) keepAliveInstance
       (for_in_keys (cache keepAliveInstance))"

definition over_max :: "max_prop \<Rightarrow> nat \<Rightarrow> bool" where
  "over_max m n =
     (truthy_max m \<and> (case parseInt m of None \<Rightarrow> False | Some bound \<Rightarrow> int n > bound))"

text \<open>
  \<open>cacheVNode\<close>. After the push the array of keys is not empty, so \<open>keys[0]\<close> is its head.
\<close>

definition cacheVNode :: "keep_alive \<Rightarrow> keep_alive" where
  "cacheVNode vm =
     (case vnodeToCache vm of
        None \<Rightarrow> vm
      | Some vnode \<Rightarrow>
          (let entry = \<lparr>entry_name = getComponentName (vnode_componentOptions vnode),
                        entry_tag = vnode_tag vnode,
                        entry_componentInstance = vnode_componentInstance vnode\<rparr>;
               vm1 = vm\<lparr>cache := AList.update (keyToCache vm) (Some entry) (cache vm),
                        keys := keys vm @ [keyToCache vm]\<rparr>;
               vm2 = (if over_max (prop_max vm1) (length (keys vm1))
                      then (case keys vm1 of
                              [] \<Rightarrow> vm1
                            | key0 # _ \<Rightarrow> pruneCacheEntry key0 (vm_vnode vm1) vm1)
                      else vm1)
           in vm2\<lparr>vnodeToCache := None\<rparr>))"

definition created :: "pattern \<Rightarrow> pattern \<Rightarrow> max_prop \<Rightarrow> keep_alive" where
  "created inc exc mx =
     \<lparr>cache = [], keys = [], vnodeToCache = None, keyToCache = [], vm_vnode = None,
      prop_include = inc, prop_exclude = exc, prop_max = mx, destroy_calls = []\<rparr>"

definition destroyed :: "keep_alive \<Rightarrow> keep_alive" where
  "destroyed vm = foldl (\<lambda>s key. pruneCacheEntry key None s) vm (for_in_keys (cache vm))"

text \<open>The test method of the regular expression \<open>/^x/\<close>: the string starts with \<open>x\<close>.\<close>

definition regexp_caret_x :: "string \<Rightarrow> bool" where
  "regexp_caret_x s = (case s of [] \<Rightarrow> False | c # _ \<Rightarrow> c = CHR ''x'')"

definition mounted :: "keep_alive \<Rightarrow> keep_alive" where
  "mounted vm = cacheVNode vm"

text \<open>The two watchers that \<open>mounted\<close> registers, called with the new value of the prop.\<close>

definition watch_include :: "pattern \<Rightarrow> keep_alive \<Rightarrow> keep_alive" where
  "watch_include val vm = pruneCache vm (\<lambda>name. matches val name)"

definition watch_exclude :: "pattern \<Rightarrow> keep_alive \<Rightarrow> keep_alive" where
  "watch_exclude val vm = pruneCache vm (\<lambda>name. \<not> matches val name)"

definition updated :: "keep_alive \<Rightarrow> keep_alive" where
  "updated vm = cacheVNode vm"

text \<open>The key of a node: lines 142 to 146 of \<open>render\<close>.\<close>

definition resolveKey :: "vnode \<Rightarrow> vnode_component_options \<Rightarrow> string" where
  "resolveKey vnode componentOptions =
     (case vnode_key vnode of
        None \<Rightarrow>
          string_of_nat (Ctor_cid (opts_Ctor componentOptions))
            @ (case opts_tag componentOptions of
                 None \<Rightarrow> []
               | Some t \<Rightarrow> (if t \<noteq> [] then ''::'' @ t else []))
      | Some k \<Rightarrow> k)"

text \<open>The filter check of \<open>render\<close>, lines 131 to 136.\<close>

definition not_cacheable :: "pattern \<Rightarrow> pattern \<Rightarrow> string option \<Rightarrow> bool" where
  "not_cacheable inc exc name =
     (case name of
        None \<Rightarrow> truthy_pattern inc
      | Some n \<Rightarrow>
          (truthy_pattern inc \<and> (n = [] \<or> \<not> matches inc n))
          \<or> (truthy_pattern exc \<and> n \<noteq> [] \<and> matches exc n))"

text \<open>
  \<open>render\<close>. The first argument is the result of \<open>getFirstComponentChild(slot)\<close>, the
  second is \<open>slot && slot[0]\<close>; the result is the node returned and the new state. The
  node stored in \<open>vnodeToCache\<close> is the object that is returned, with the flag set.
\<close>

definition render :: "vnode option \<Rightarrow> vnode option \<Rightarrow> keep_alive \<Rightarrow> vnode option \<times> keep_alive" where
  "render child slot0 vm =
     (case child of
        None \<Rightarrow> (slot0, vm)
      | Some vnode \<Rightarrow>
          (case vnode_componentOptions vnode of
             None \<Rightarrow> (Some vnode, vm)
           | Some componentOptions \<Rightarrow>
               (let name = getComponentName (Some componentOptions) in
                if not_cacheable (prop_include vm) (prop_exclude vm) name then (Some vnode, vm)
                else
                  (let key = resolveKey vnode componentOptions in
                   case cache_get (cache vm) key of
                     Some entry \<Rightarrow>
                       (Some (vnode\<lparr>vnode_componentInstance := entry_componentInstance entry,
                                    vnode_keepAlive := True\<rparr>),
                        vm\<lparr>keys := remove (keys vm) key @ [key]\<rparr>)
                   | None \<Rightarrow>
                       (let vnode' = vnode\<lparr>vnode_keepAlive := True\<rparr> in
                        (Some vnode', vm\<lparr>vnodeToCache := Some vnode', keyToCache := key\<rparr>))))))"

subsection \<open>Definitions for the analysis\<close>

text \<open>
  The entry that \<open>cacheVNode\<close> builds from the pending node.
\<close>

definition entry_of :: "vnode \<Rightarrow> cache_entry" where
  "entry_of vnode = \<lparr>entry_name = getComponentName (vnode_componentOptions vnode),
                        entry_tag = vnode_tag vnode,
                        entry_componentInstance = vnode_componentInstance vnode\<rparr>"

text \<open>
  The test of the loop body of \<open>pruneCache\<close>: the key has an entry, the entry has a name
  that is truthy, and the filter rejects the name.
\<close>

definition prunable :: "(string \<Rightarrow> bool) \<Rightarrow> cache_entry_map \<Rightarrow> string \<Rightarrow> bool" where
  "prunable filter_fn c k =
     (case cache_get c k of
        None \<Rightarrow> False
      | Some entry \<Rightarrow>
          (case entry_name entry of None \<Rightarrow> False | Some n \<Rightarrow> n \<noteq> [] \<and> \<not> filter_fn n))"

text \<open>
  The test of \<open>pruneCacheEntry\<close> that lets the destroy call through: there is no current
  node, or the tag of the entry is not the tag of the current node. \<open>destroy_of\<close> is the
  list of destroy calls that the removal of a key issues: the instance of its entry when
  the test holds, nothing when it fails or the key holds no entry.
\<close>

definition tag_differs :: "vnode option \<Rightarrow> cache_entry \<Rightarrow> bool" where
  "tag_differs current entry =
     (case current of None \<Rightarrow> True | Some cur \<Rightarrow> entry_tag entry \<noteq> vnode_tag cur)"

definition destroy_of :: "vnode option \<Rightarrow> cache_entry_map \<Rightarrow> string \<Rightarrow> component list" where
  "destroy_of current c key =
     (case cache_get c key of
        None \<Rightarrow> []
      | Some entry \<Rightarrow> if tag_differs current entry then [entry_componentInstance entry] else [])"

text \<open>
  The keys that hold an entry, in the order of their creation, and the entries in the
  order in which a for-in loop meets them.
\<close>

definition live_keys :: "cache_entry_map \<Rightarrow> string list" where
  "live_keys c = filter (\<lambda>k. cache_get c k \<noteq> None) (map fst c)"

definition live_entries :: "cache_entry_map \<Rightarrow> cache_entry list" where
  "live_entries c = List.map_filter (cache_get c) (for_in_keys c)"

text \<open>
  The invariant of the data model: no property of the cache occurs twice in its list, the
  key sequence lists every live key once and nothing else, and the key of a pending node
  has no entry.
\<close>

definition store_inv_fields ::
  "cache_entry_map \<Rightarrow> string list \<Rightarrow> vnode option \<Rightarrow> string \<Rightarrow> bool" where
  "store_inv_fields c ks pending pending_key =
     (distinct (map fst c) \<and> distinct ks \<and> set ks = set (live_keys c)
      \<and> (case pending of None \<Rightarrow> True | Some _ \<Rightarrow> cache_get c pending_key = None))"

definition store_inv :: "keep_alive \<Rightarrow> bool" where
  "store_inv vm = store_inv_fields (cache vm) (keys vm) (vnodeToCache vm) (keyToCache vm)"

text \<open>
  Modelled from the spec: the host of the component, which is not part of the sources at
  hand. It calls \<open>render\<close> and makes the node that \<open>render\<close> returns the current node
  \<open>this._vnode\<close>, it calls the hooks \<open>mounted\<close> and \<open>updated\<close>, and it assigns a new value to
  the prop \<open>include\<close> or \<open>exclude\<close>, upon which the watcher of the prop runs. \<open>run\<close> lets
  the host act in any order, which covers the order of the real host.
\<close>

datatype event =
    Render "vnode option" "vnode option"
  | Mounted
  | Updated
  | IncludeChanged pattern
  | ExcludeChanged pattern

fun fire :: "event \<Rightarrow> keep_alive \<Rightarrow> keep_alive" where
  "fire (Render child slot0) vm = (case render child slot0 vm of (r, vm') \<Rightarrow> vm'\<lparr>vm_vnode := r\<rparr>)"
| "fire Mounted vm = mounted vm"
| "fire Updated vm = updated vm"
| "fire (IncludeChanged val) vm = watch_include val (vm\<lparr>prop_include := val\<rparr>)"
| "fire (ExcludeChanged val) vm = watch_exclude val (vm\<lparr>prop_exclude := val\<rparr>)"

definition run :: "event list \<Rightarrow> keep_alive \<Rightarrow> keep_alive" where
  "run evs vm = foldl (\<lambda>s e. fire e s) vm evs"

text \<open>The inverse of \<open>split_comma\<close>.\<close>

fun join_comma :: "string list \<Rightarrow> string" where
  "join_comma [] = []"
| "join_comma [p] = p"
| "join_comma (p # q # ps) = p @ CHR '','' # join_comma (q # ps)"

text \<open>
  Nodes for the examples, as the host builds them for a component with constructor id
  \<open>c\<close> that is registered under \<open>name\<close>: the tag of the node is
  \<open>vue-component-c-name\<close>.
\<close>

definition example_options :: "nat \<Rightarrow> string \<Rightarrow> vnode_component_options" where
  "example_options c name =
     \<lparr>opts_Ctor = \<lparr>Ctor_cid = c, Ctor_options_name = Some name\<rparr>, opts_tag = Some name\<rparr>"

definition example_vnode :: "string option \<Rightarrow> nat \<Rightarrow> string \<Rightarrow> component \<Rightarrow> vnode" where
  "example_vnode k c name inst =
     \<lparr>vnode_key = k,
      vnode_tag = Some (''vue-component-'' @ string_of_nat c @ ''-'' @ name),
      vnode_componentInstance = inst,
      vnode_componentOptions = Some (example_options c name),
      vnode_keepAlive = False\<rparr>"

text \<open>The scenario of the least recently used key, for any five nodes.\<close>

definition lru_scenario :: "vnode \<Rightarrow> vnode \<Rightarrow> vnode \<Rightarrow> vnode \<Rightarrow> vnode \<Rightarrow> event list" where
  "lru_scenario a b c a' d =
     [Render (Some a) None, Mounted, Render (Some b) None, Updated,
      Render (Some c) None, Updated, Render (Some a') None, Updated,
      Render (Some d) None, Updated]"

text \<open>
  Example runs and states: three admissions in a row; the same with a second pass for the
  first node and a fourth admission; two admissions of which the second waits in the
  pending slot; two nodes of different components under one explicit key, followed by a
  filter change; and three states written out, one of them with a node in the pending
  slot and the bound reached.
\<close>

definition abc_example :: "event list" where
  "abc_example =
     [Render (Some (example_vnode None 2 ''A'' 10)) None, Mounted,
      Render (Some (example_vnode None 3 ''B'' 20)) None, Updated,
      Render (Some (example_vnode None 4 ''C'' 30)) None, Updated]"

definition lru_example :: "event list" where
  "lru_example =
     [Render (Some (example_vnode None 2 ''A'' 10)) None, Mounted,
      Render (Some (example_vnode None 3 ''B'' 20)) None, Updated,
      Render (Some (example_vnode None 4 ''C'' 30)) None, Updated,
      Render (Some (example_vnode None 2 ''A'' 11)) None, Updated,
      Render (Some (example_vnode None 5 ''D'' 40)) None, Updated]"

definition capacity_example :: "event list" where
  "capacity_example =
     [Render (Some (example_vnode None 2 ''a'' 10)) None, Mounted,
      Render (Some (example_vnode None 3 ''b'' 20)) None]"

definition shared_key_example :: "event list" where
  "shared_key_example =
     [Render (Some (example_vnode (Some ''k'') 2 ''a'' 10)) None, Mounted,
      Render (Some (example_vnode (Some ''k'') 3 ''b'' 20)) None, Updated,
      IncludeChanged (PArray [''c''])]"

definition same_tag_example :: keep_alive where
  "same_tag_example =
     \<lparr>cache = [(''k1'', Some \<lparr>entry_name = Some ''a'', entry_tag = Some ''vue-component-2-a'',
                             entry_componentInstance = 10\<rparr>),
               (''k2'', Some \<lparr>entry_name = Some ''b'', entry_tag = Some ''vue-component-3-b'',
                             entry_componentInstance = 20\<rparr>)],
      keys = [''k1'', ''k2''], vnodeToCache = None, keyToCache = [],
      vm_vnode = Some (example_vnode (Some ''k1'') 2 ''a'' 10),
      prop_include = PUndefined, prop_exclude = PUndefined,
      prop_max = MaxUndefined, destroy_calls = []\<rparr>"

definition pending_example :: keep_alive where
  "pending_example =
     same_tag_example\<lparr>vnodeToCache := Some (example_vnode (Some ''k3'') 4 ''c'' 30),
                       keyToCache := ''k3'', prop_max := MaxNumber 2\<rparr>"

definition unnamed_example :: keep_alive where
  "unnamed_example =
     \<lparr>cache = [(''7'', Some \<lparr>entry_name = None, entry_tag = Some ''vue-component-7'',
                            entry_componentInstance = 1\<rparr>),
               (''8::b'', Some \<lparr>entry_name = Some ''b'', entry_tag = Some ''vue-component-8-b'',
                            entry_componentInstance = 2\<rparr>)],
      keys = [''7'', ''8::b''], vnodeToCache = None, keyToCache = [],
      vm_vnode = None, prop_include = PUndefined, prop_exclude = PUndefined,
      prop_max = MaxUndefined, destroy_calls = []\<rparr>"

section \<open>Auxiliary facts\<close>

lemma indexOf_nonneg_iff: "(indexOf xs x > - 1) = (x \<in> set xs)"
  by (induction xs) (auto simp: Let_def)

lemma split_comma_nonempty: "split_comma s \<noteq> []"
  by (induction s) (auto split: list.splits)

lemma join_split_comma: "join_comma (split_comma s) = s"
proof (induction s)
  case Nil
  show ?case by simp
next
  case (Cons c cs)
  obtain p ps where sp: "split_comma cs = p # ps"
    using split_comma_nonempty [of cs] by (cases "split_comma cs") auto
  show ?case
  proof (cases "c = CHR '',''")
    case True
    with Cons sp show ?thesis by simp
  next
    case False
    with Cons sp show ?thesis by (cases ps) auto
  qed
qed

lemma split_comma_no_comma: "p \<in> set (split_comma s) \<Longrightarrow> CHR '','' \<notin> set p"
  by (induction s arbitrary: p) (auto split: list.splits if_splits)

lemma cache_get_update:
  "cache_get (AList.update k v c) k' = (if k' = k then v else cache_get c k')"
  by (cases v) (simp_all add: cache_get_def update_conv')

lemma pruneCacheEntry_cache [simp]:
  "cache (pruneCacheEntry key current vm) = AList.update key None (cache vm)"
  by (simp add: pruneCacheEntry_def Let_def)

lemma pruneCacheEntry_keys [simp]:
  "keys (pruneCacheEntry key current vm) = remove1 key (keys vm)"
  by (simp add: pruneCacheEntry_def Let_def remove_def)

lemma pruneCacheEntry_calls:
  "destroy_calls (pruneCacheEntry key current vm) =
     destroy_calls vm @
       (case cache_get (cache vm) key of
          None \<Rightarrow> []
        | Some entry \<Rightarrow>
            (if (case current of None \<Rightarrow> True | Some cur \<Rightarrow> entry_tag entry \<noteq> vnode_tag cur)
             then [entry_componentInstance entry] else []))"
  by (simp add: pruneCacheEntry_def Let_def split: option.splits)

lemma pruneCacheEntry_frame [simp]:
  "vnodeToCache (pruneCacheEntry key current vm) = vnodeToCache vm"
  "keyToCache (pruneCacheEntry key current vm) = keyToCache vm"
  "vm_vnode (pruneCacheEntry key current vm) = vm_vnode vm"
  "prop_include (pruneCacheEntry key current vm) = prop_include vm"
  "prop_exclude (pruneCacheEntry key current vm) = prop_exclude vm"
  "prop_max (pruneCacheEntry key current vm) = prop_max vm"
  by (simp_all add: pruneCacheEntry_def Let_def)

lemma not_cacheable_iff:
  "not_cacheable inc exc name \<longleftrightarrow>
     (truthy_pattern inc \<and> \<not> (\<exists>n. name = Some n \<and> n \<noteq> [] \<and> matches inc n))
     \<or> (truthy_pattern exc \<and> (\<exists>n. name = Some n \<and> n \<noteq> [] \<and> matches exc n))"
  by (auto simp: not_cacheable_def split: option.splits)

lemma render_miss:
  assumes "vnode_componentOptions vnode = Some co"
    and "\<not> not_cacheable (prop_include vm) (prop_exclude vm) (getComponentName (Some co))"
    and "cache_get (cache vm) (resolveKey vnode co) = None"
  shows "render (Some vnode) slot0 vm =
           (Some (vnode\<lparr>vnode_keepAlive := True\<rparr>),
            vm\<lparr>vnodeToCache := Some (vnode\<lparr>vnode_keepAlive := True\<rparr>),
               keyToCache := resolveKey vnode co\<rparr>)"
  using assms by (simp add: render_def Let_def)

lemma render_hit:
  assumes "vnode_componentOptions vnode = Some co"
    and "\<not> not_cacheable (prop_include vm) (prop_exclude vm) (getComponentName (Some co))"
    and "cache_get (cache vm) (resolveKey vnode co) = Some entry"
  shows "render (Some vnode) slot0 vm =
           (Some (vnode\<lparr>vnode_componentInstance := entry_componentInstance entry,
                        vnode_keepAlive := True\<rparr>),
            vm\<lparr>keys := remove1 (resolveKey vnode co) (keys vm) @ [resolveKey vnode co]\<rparr>)"
  using assms by (simp add: render_def Let_def remove_def)

lemma cacheVNode_none: "vnodeToCache vm = None \<Longrightarrow> cacheVNode vm = vm"
  by (simp add: cacheVNode_def)

lemma cacheVNode_some:
  assumes "vnodeToCache vm = Some vnode"
  shows "cacheVNode vm =
    (if over_max (prop_max vm) (Suc (length (keys vm)))
     then pruneCacheEntry (hd (keys vm @ [keyToCache vm])) (vm_vnode vm)
            (vm\<lparr>cache := AList.update (keyToCache vm) (Some (entry_of vnode)) (cache vm),
                keys := keys vm @ [keyToCache vm]\<rparr>)
     else vm\<lparr>cache := AList.update (keyToCache vm) (Some (entry_of vnode)) (cache vm),
                keys := keys vm @ [keyToCache vm]\<rparr>)\<lparr>vnodeToCache := None\<rparr>"
  using assms by (cases "keys vm") (simp_all add: cacheVNode_def Let_def entry_of_def)

lemma cache_get_in_keys: "cache_get c k = Some e \<Longrightarrow> k \<in> fst ` set c"
  by (auto simp: cache_get_def split: option.splits dest: map_of_SomeD intro: rev_image_eqI)

lemma set_live_keys: "set (live_keys c) = {k. cache_get c k \<noteq> None}"
  by (auto simp: live_keys_def dest: cache_get_in_keys)

lemma set_for_in_keys: "set (for_in_keys c) = fst ` set c"
  by (auto simp: for_in_keys_def Let_def)

lemma distinct_for_in_keys: "distinct (map fst c) \<Longrightarrow> distinct (for_in_keys c)"
  by (auto simp: for_in_keys_def Let_def)

lemma pruneCache_step_cache_get:
  "cache_get (cache (pruneCache_step cur f vm a)) k =
     (if k = a \<and> prunable f (cache vm) a then None else cache_get (cache vm) k)"
  by (auto simp: pruneCache_step_def prunable_def cache_get_update split: option.splits)

lemma prunable_step:
  "prunable f (cache (pruneCache_step cur f vm a)) k = (prunable f (cache vm) k \<and> k \<noteq> a)"
  by (auto simp: prunable_def pruneCache_step_cache_get split: option.splits)

lemma pruneCache_fold_cache_get:
  "cache_get (cache (foldl (pruneCache_step cur f) vm ks)) k =
     (if k \<in> set ks \<and> prunable f (cache vm) k then None else cache_get (cache vm) k)"
proof (induction ks arbitrary: vm)
  case Nil
  show ?case by simp
next
  case (Cons a ks)
  show ?case
    by (auto simp: Cons.IH prunable_step pruneCache_step_cache_get)
qed

lemma pruneCache_cache_get:
  "cache_get (cache (pruneCache vm f)) k =
     (if prunable f (cache vm) k then None else cache_get (cache vm) k)"
proof -
  have "prunable f (cache vm) k \<Longrightarrow> k \<in> set (for_in_keys (cache vm))"
    by (auto simp: prunable_def set_for_in_keys split: option.splits dest: cache_get_in_keys)
  then show ?thesis
    by (auto simp: pruneCache_def pruneCache_fold_cache_get)
qed

lemma pruneCache_step_keys:
  "keys (pruneCache_step cur f vm a) =
     (if prunable f (cache vm) a then remove1 a (keys vm) else keys vm)"
  by (auto simp: pruneCache_step_def prunable_def split: option.splits)

lemma filter_neq_notin: "a \<notin> set xs \<Longrightarrow> filter (\<lambda>x. x \<noteq> a) xs = xs"
  by (induction xs) auto

lemma remove1_filter_distinct:
  "distinct xs \<Longrightarrow> remove1 a xs = filter (\<lambda>x. x \<noteq> a) xs"
  by (induction xs) (auto simp: filter_neq_notin)

lemma pruneCache_fold_keys:
  "distinct (keys vm) \<Longrightarrow>
   keys (foldl (pruneCache_step cur f) vm ks) =
     filter (\<lambda>k. \<not> (k \<in> set ks \<and> prunable f (cache vm) k)) (keys vm)"
proof (induction ks arbitrary: vm)
  case Nil
  show ?case by simp
next
  case (Cons a ks)
  have d: "distinct (keys (pruneCache_step cur f vm a))"
    using Cons.prems by (simp add: pruneCache_step_keys)
  have r: "remove1 a (keys vm) = filter (\<lambda>x. x \<noteq> a) (keys vm)"
    using Cons.prems by (rule remove1_filter_distinct)
  show ?case
    by (auto simp: Cons.IH [OF d] prunable_step pruneCache_step_keys r intro!: filter_cong)
qed

lemma pruneCache_keys:
  "distinct (keys vm) \<Longrightarrow>
   keys (pruneCache vm f) = filter (\<lambda>k. \<not> prunable f (cache vm) k) (keys vm)"
proof -
  assume d: "distinct (keys vm)"
  have "prunable f (cache vm) k \<Longrightarrow> k \<in> set (for_in_keys (cache vm))" for k
    by (auto simp: prunable_def set_for_in_keys split: option.splits dest: cache_get_in_keys)
  then show ?thesis
    by (auto simp: pruneCache_def pruneCache_fold_keys [OF d] intro!: filter_cong)
qed

lemma pruneCache_step_frame [simp]:
  "vnodeToCache (pruneCache_step cur f vm a) = vnodeToCache vm"
  "keyToCache (pruneCache_step cur f vm a) = keyToCache vm"
  "vm_vnode (pruneCache_step cur f vm a) = vm_vnode vm"
  "prop_include (pruneCache_step cur f vm a) = prop_include vm"
  "prop_exclude (pruneCache_step cur f vm a) = prop_exclude vm"
  "prop_max (pruneCache_step cur f vm a) = prop_max vm"
  by (simp_all add: pruneCache_step_def split: option.splits)

lemma pruneCache_fold_keeps_key:
  "k \<in> set (keys vm) \<Longrightarrow> \<not> prunable f (cache vm) k \<Longrightarrow>
   k \<in> set (keys (foldl (pruneCache_step cur f) vm ks))"
proof (induction ks arbitrary: vm)
  case Nil
  then show ?case by simp
next
  case (Cons a ks)
  have "prunable f (cache vm) a \<Longrightarrow> k \<noteq> a"
    using Cons.prems by auto
  then have "k \<in> set (keys (pruneCache_step cur f vm a))"
    using Cons.prems by (simp add: pruneCache_step_keys)
  moreover have "\<not> prunable f (cache (pruneCache_step cur f vm a)) k"
    using Cons.prems by (simp add: prunable_step)
  ultimately show ?case
    using Cons.IH by simp
qed

lemma pruneCache_keys_live:
  assumes "distinct (keys vm)" and "set (keys vm) = set (live_keys (cache vm))"
  shows "keys (pruneCache vm f) = filter (\<lambda>k. cache_get (cache (pruneCache vm f)) k \<noteq> None) (keys vm)"
proof -
  have "k \<in> set (keys vm) \<Longrightarrow> cache_get (cache vm) k \<noteq> None" for k
    using assms(2) by (simp add: set_live_keys)
  then show ?thesis
    by (auto simp: pruneCache_keys [OF assms(1)] pruneCache_cache_get intro!: filter_cong)
qed

lemma set_live_keys_update_None:
  "set (live_keys (AList.update k None c)) = set (live_keys c) - {k}"
  by (auto simp: set_live_keys cache_get_update)

lemma set_live_keys_update_Some:
  "set (live_keys (AList.update k (Some e) c)) = insert k (set (live_keys c))"
  by (auto simp: set_live_keys cache_get_update)

lemma store_inv_fields_prune:
  "store_inv_fields c ks pending pk \<Longrightarrow> store_inv_fields (AList.update key None c) (remove1 key ks) pending pk"
  by (auto simp: store_inv_fields_def distinct_update set_live_keys_update_None cache_get_update
      split: option.splits)

lemma store_inv_pruneCacheEntry: "store_inv vm \<Longrightarrow> store_inv (pruneCacheEntry key cur vm)"
  by (simp add: store_inv_def store_inv_fields_prune)

lemma store_inv_pruneCache_step: "store_inv vm \<Longrightarrow> store_inv (pruneCache_step cur f vm a)"
  by (simp add: pruneCache_step_def store_inv_pruneCacheEntry split: option.splits)

lemma store_inv_pruneCache_fold: "store_inv vm \<Longrightarrow> store_inv (foldl (pruneCache_step cur f) vm ks)"
  by (induction ks arbitrary: vm) (simp_all add: store_inv_pruneCache_step)

lemma store_inv_pruneCache: "store_inv vm \<Longrightarrow> store_inv (pruneCache vm f)"
  by (simp add: pruneCache_def store_inv_pruneCache_fold)

lemma store_inv_frame:
  "store_inv (vm\<lparr>vm_vnode := x\<rparr>) = store_inv vm"
  "store_inv (vm\<lparr>prop_include := p\<rparr>) = store_inv vm"
  "store_inv (vm\<lparr>prop_exclude := p\<rparr>) = store_inv vm"
  by (simp_all add: store_inv_def)

lemma store_inv_cacheVNode: "store_inv vm \<Longrightarrow> store_inv (cacheVNode vm)"
proof (cases "vnodeToCache vm")
  case None
  assume "store_inv vm"
  then show ?thesis by (simp add: cacheVNode_none [OF None])
next
  case (Some v)
  assume w: "store_inv vm"
  let ?vm1 = "vm\<lparr>cache := AList.update (keyToCache vm) (Some (entry_of v)) (cache vm),
                keys := keys vm @ [keyToCache vm]\<rparr>"
  have dead: "cache_get (cache vm) (keyToCache vm) = None"
    using w Some by (simp add: store_inv_def store_inv_fields_def)
  then have "keyToCache vm \<notin> set (keys vm)"
    using w by (simp add: store_inv_def store_inv_fields_def set_live_keys)
  then have w1: "store_inv_fields (cache ?vm1) (keys ?vm1) None (keyToCache vm)"
    using w by (auto simp: store_inv_def store_inv_fields_def distinct_update set_live_keys_update_Some)
  show ?thesis
    unfolding cacheVNode_some [OF Some] using w1 store_inv_fields_prune [OF w1]
    by (simp add: store_inv_def)
qed

lemma store_inv_render: "store_inv vm \<Longrightarrow> store_inv (snd (render child slot0 vm))"
proof -
  assume w: "store_inv vm"
  have hit: "cache_get (cache vm) k = Some e \<Longrightarrow> store_inv (vm\<lparr>keys := remove1 k (keys vm) @ [k]\<rparr>)" for k e
  proof -
    assume "cache_get (cache vm) k = Some e"
    then have "k \<in> set (keys vm)"
      using w by (simp add: store_inv_def store_inv_fields_def set_live_keys)
    then show ?thesis
      using w by (auto simp: store_inv_def store_inv_fields_def)
  qed
  have miss: "cache_get (cache vm) k = None \<Longrightarrow> store_inv (vm\<lparr>vnodeToCache := Some v, keyToCache := k\<rparr>)" for k v
    using w by (simp add: store_inv_def store_inv_fields_def)
  show ?thesis
    using w hit miss
    by (auto simp: render_def Let_def remove_def split: option.splits)
qed

lemma store_inv_fire: "store_inv vm \<Longrightarrow> store_inv (fire e vm)"
proof (cases e)
  case (Render child slot0)
  assume "store_inv vm"
  then show ?thesis
    using store_inv_render [of vm child slot0] Render
    by (cases "render child slot0 vm") (simp add: store_inv_frame)
next
  case Mounted
  assume "store_inv vm"
  then show ?thesis using Mounted by (simp add: mounted_def store_inv_cacheVNode)
next
  case Updated
  assume "store_inv vm"
  then show ?thesis using Updated by (simp add: updated_def store_inv_cacheVNode)
next
  case (IncludeChanged p)
  assume "store_inv vm"
  then show ?thesis using IncludeChanged by (simp add: watch_include_def store_inv_pruneCache store_inv_frame)
next
  case (ExcludeChanged p)
  assume "store_inv vm"
  then show ?thesis using ExcludeChanged by (simp add: watch_exclude_def store_inv_pruneCache store_inv_frame)
qed

lemma store_inv_run: "store_inv vm \<Longrightarrow> store_inv (run evs vm)"
  unfolding run_def by (induction evs arbitrary: vm) (simp_all add: store_inv_fire)

lemma store_inv_created: "store_inv (created inc exc mx)"
  by (simp add: store_inv_def store_inv_fields_def created_def live_keys_def)

lemma parseInt_truthy: "parseInt mx = Some m \<Longrightarrow> m \<noteq> 0 \<Longrightarrow> truthy_max mx"
  by (cases mx) (auto simp: parseInt_def truthy_max_def parseInt_string_def)

lemma over_max_iff: "parseInt mx = Some m \<Longrightarrow> m \<noteq> 0 \<Longrightarrow> over_max mx n = (int n > m)"
  by (simp add: over_max_def parseInt_truthy)

lemma prop_max_pruneCache_fold [simp]:
  "prop_max (foldl (pruneCache_step cur f) vm ks) = prop_max vm"
  by (induction ks arbitrary: vm) simp_all

lemma prop_max_pruneCache [simp]: "prop_max (pruneCache vm f) = prop_max vm"
  by (simp add: pruneCache_def)

lemma prop_max_cacheVNode [simp]: "prop_max (cacheVNode vm) = prop_max vm"
  by (cases "vnodeToCache vm") (simp_all add: cacheVNode_none cacheVNode_some)

lemma prop_max_render [simp]: "prop_max (snd (render child slot0 vm)) = prop_max vm"
  by (simp add: render_def Let_def split: option.splits)

lemma prop_max_fire [simp]: "prop_max (fire e vm) = prop_max vm"
  by (cases e) (simp_all add: mounted_def updated_def watch_include_def watch_exclude_def
      split: prod.splits, metis prop_max_render snd_conv)

lemma prop_max_run [simp]: "prop_max (run evs vm) = prop_max vm"
  unfolding run_def by (induction evs arbitrary: vm) simp_all

lemma length_pruneCache_fold:
  "length (keys (foldl (pruneCache_step cur f) vm ks)) \<le> length (keys vm)"
proof (induction ks arbitrary: vm)
  case Nil
  show ?case by simp
next
  case (Cons a ks)
  have "length (keys (pruneCache_step cur f vm a)) \<le> length (keys vm)"
    by (simp add: pruneCache_step_keys length_remove1)
  with Cons.IH [of "pruneCache_step cur f vm a"] show ?case by simp
qed

lemma length_pruneCache: "length (keys (pruneCache vm f)) \<le> length (keys vm)"
  by (simp add: pruneCache_def length_pruneCache_fold)

lemma keys_cacheVNode_some:
  "vnodeToCache vm = Some v \<Longrightarrow>
   keys (cacheVNode vm) =
     (if over_max (prop_max vm) (Suc (length (keys vm)))
      then tl (keys vm @ [keyToCache vm]) else keys vm @ [keyToCache vm])"
  by (cases "keys vm") (simp_all add: cacheVNode_some)

lemma bound_cacheVNode:
  assumes "parseInt (prop_max vm) = Some m" and "0 < m" and "int (length (keys vm)) \<le> m"
  shows "int (length (keys (cacheVNode vm))) \<le> m"
proof (cases "vnodeToCache vm")
  case None
  then show ?thesis using assms(3) by (simp add: cacheVNode_none)
next
  case (Some v)
  show ?thesis
    using assms over_max_iff [OF assms(1), of "Suc (length (keys vm))"]
    by (simp add: keys_cacheVNode_some [OF Some])
qed

lemma length_keys_render:
  assumes "store_inv vm"
  shows "length (keys (snd (render child slot0 vm))) = length (keys vm)"
proof -
  have "cache_get (cache vm) k = Some e \<Longrightarrow> length (remove1 k (keys vm)) = length (keys vm) - 1
          \<and> keys vm \<noteq> []" for k e
  proof -
    assume "cache_get (cache vm) k = Some e"
    then have "k \<in> set (keys vm)"
      using assms by (simp add: store_inv_def store_inv_fields_def set_live_keys)
    then show ?thesis by (auto simp: length_remove1)
  qed
  then show ?thesis
    by (auto simp: render_def Let_def remove_def split: option.splits)
qed

lemma bound_fire:
  assumes "store_inv vm" and "parseInt (prop_max vm) = Some m" and "0 < m"
    and "int (length (keys vm)) \<le> m"
  shows "int (length (keys (fire e vm))) \<le> m"
proof (cases e)
  case (Render child slot0)
  then show ?thesis
    using length_keys_render [OF assms(1), of child slot0] assms(4)
    by (cases "render child slot0 vm") simp
next
  case Mounted
  then show ?thesis using bound_cacheVNode [OF assms(2,3,4)] by (simp add: mounted_def)
next
  case Updated
  then show ?thesis using bound_cacheVNode [OF assms(2,3,4)] by (simp add: updated_def)
next
  case (IncludeChanged p)
  then show ?thesis
    using length_pruneCache [of "vm\<lparr>prop_include := p\<rparr>" "\<lambda>name. matches p name"] assms(4)
    by (simp add: watch_include_def)
next
  case (ExcludeChanged p)
  then show ?thesis
    using length_pruneCache [of "vm\<lparr>prop_exclude := p\<rparr>" "\<lambda>name. \<not> matches p name"] assms(4)
    by (simp add: watch_exclude_def)
qed

lemma bound_run:
  assumes "store_inv vm" and "parseInt (prop_max vm) = Some m" and "0 < m"
    and "int (length (keys vm)) \<le> m"
  shows "int (length (keys (run evs vm))) \<le> m"
proof (induction evs rule: rev_induct)
  case Nil
  show ?case using assms(4) by (simp add: run_def)
next
  case (snoc e evs)
  have r: "run (evs @ [e]) vm = fire e (run evs vm)"
    by (simp add: run_def)
  have pm: "parseInt (prop_max (run evs vm)) = Some m"
    using assms(2) by simp
  show ?case
    unfolding r using store_inv_run [OF assms(1)] pm assms(3) snoc.IH by (rule bound_fire)
qed

lemma length_live_keys: "store_inv vm \<Longrightarrow> length (live_keys (cache vm)) = length (keys vm)"
proof -
  assume w: "store_inv vm"
  have "distinct (live_keys (cache vm))"
    using w by (simp add: store_inv_def store_inv_fields_def live_keys_def)
  then have "length (live_keys (cache vm)) = card (set (live_keys (cache vm)))"
    by (simp add: distinct_card)
  also have "\<dots> = card (set (keys vm))"
  proof -
    have "set (keys vm) = set (live_keys (cache vm))"
      using w by (simp add: store_inv_def store_inv_fields_def)
    then show ?thesis by simp
  qed
  also have "\<dots> = length (keys vm)"
  proof -
    have "distinct (keys vm)"
      using w by (simp add: store_inv_def store_inv_fields_def)
    then show ?thesis by (rule distinct_card)
  qed
  finally show ?thesis .
qed

lemma destroy_fold_cache_get:
  "cache_get (cache (foldl (\<lambda>s key. pruneCacheEntry key None s) vm ks)) k =
     (if k \<in> set ks then None else cache_get (cache vm) k)"
  by (induction ks arbitrary: vm) (auto simp: cache_get_update)

lemma destroy_fold_keys:
  "distinct (keys vm) \<Longrightarrow>
   keys (foldl (\<lambda>s key. pruneCacheEntry key None s) vm ks) = filter (\<lambda>k. k \<notin> set ks) (keys vm)"
proof (induction ks arbitrary: vm)
  case Nil
  show ?case by simp
next
  case (Cons a ks)
  have d: "distinct (keys (pruneCacheEntry a None vm))"
    using Cons.prems by simp
  show ?case
    using Cons.prems
    by (auto simp: Cons.IH [OF d] remove1_filter_distinct intro!: filter_cong)
qed

lemma map_filter_cong_set:
  "(\<And>x. x \<in> set xs \<Longrightarrow> f x = g x) \<Longrightarrow> List.map_filter f xs = List.map_filter g xs"
  by (induction xs) (auto simp: map_filter_simps split: option.splits)

lemma destroy_fold_calls:
  "distinct ks \<Longrightarrow>
   destroy_calls (foldl (\<lambda>s key. pruneCacheEntry key None s) vm ks) =
     destroy_calls vm @ map entry_componentInstance (List.map_filter (cache_get (cache vm)) ks)"
proof (induction ks arbitrary: vm)
  case Nil
  show ?case by (simp add: map_filter_simps)
next
  case (Cons a ks)
  have d: "distinct ks" and a: "a \<notin> set ks"
    using Cons.prems by simp_all
  have same: "List.map_filter (cache_get (AList.update a None (cache vm))) ks
                = List.map_filter (cache_get (cache vm)) ks"
    using a by (intro map_filter_cong_set) (auto simp: cache_get_update)
  show ?case
    by (simp add: Cons.IH [OF d] same pruneCacheEntry_calls map_filter_simps split: option.splits)
qed

lemma length_live_entries:
  "distinct (map fst c) \<Longrightarrow> length (live_entries c) = length (live_keys c)"
proof -
  assume d: "distinct (map fst c)"
  have "length (live_entries c) = length (filter (\<lambda>k. cache_get c k \<noteq> None) (for_in_keys c))"
    by (simp add: live_entries_def map_filter_def)
  also have "\<dots> = card (set (filter (\<lambda>k. cache_get c k \<noteq> None) (for_in_keys c)))"
  proof -
    have "distinct (filter (\<lambda>k. cache_get c k \<noteq> None) (for_in_keys c))"
      using distinct_for_in_keys [OF d] by (rule distinct_filter)
    then show ?thesis by (rule distinct_card [symmetric])
  qed
  also have "\<dots> = card (set (live_keys c))"
    by (simp add: live_keys_def set_for_in_keys)
  also have "\<dots> = length (live_keys c)"
  proof -
    have "distinct (live_keys c)"
      using d by (simp add: live_keys_def)
    then show ?thesis by (rule distinct_card)
  qed
  finally show ?thesis .
qed

lemma destroyed_wf:
  assumes "store_inv vm"
  shows "keys (destroyed vm) = []"
    and "cache_get (cache (destroyed vm)) k = None"
    and "destroy_calls (destroyed vm)
           = destroy_calls vm @ map entry_componentInstance (live_entries (cache vm))"
    and "length (live_entries (cache vm)) = length (keys vm)"
proof -
  have d: "distinct (map fst (cache vm))" and dk: "distinct (keys vm)"
    and s: "set (keys vm) = set (live_keys (cache vm))"
    using assms by (simp_all add: store_inv_def store_inv_fields_def)
  have sub: "k' \<in> set (keys vm) \<Longrightarrow> k' \<in> set (for_in_keys (cache vm))" for k'
    using s by (auto simp: live_keys_def set_for_in_keys)
  show "keys (destroyed vm) = []"
    using sub by (simp add: destroyed_def destroy_fold_keys [OF dk] filter_empty_conv)
  show "cache_get (cache (destroyed vm)) k = None"
    by (auto simp: destroyed_def destroy_fold_cache_get set_for_in_keys dest: cache_get_in_keys)
      (metis cache_get_in_keys not_Some_eq)
  show "destroy_calls (destroyed vm)
           = destroy_calls vm @ map entry_componentInstance (live_entries (cache vm))"
    by (simp add: destroyed_def destroy_fold_calls [OF distinct_for_in_keys [OF d]] live_entries_def)
  show "length (live_entries (cache vm)) = length (keys vm)"
    using length_live_entries [OF d] length_live_keys [OF assms] by simp
qed

lemmas example_defs = example_vnode_def example_options_def created_def

lemma string_of_nat_small [simp]:
  "string_of_nat 2 = ''2''" "string_of_nat 3 = ''3''"
  "string_of_nat 4 = ''4''" "string_of_nat 5 = ''5''"
  by (simp_all add: string_of_nat.simps digit_char_def)

lemmas eval_defs = run_def render_def cacheVNode_def mounted_def updated_def
  pruneCacheEntry_def pruneCache_def pruneCache_step_def watch_include_def watch_exclude_def
  destroyed_def for_in_keys_def is_array_index_def is_decimal_def is_digit_of_def
  digit_value_def digits_value_def remove_def resolveKey_def not_cacheable_def
  truthy_pattern_def getComponentName_def truthy_def cache_get_def over_max_def
  truthy_max_def parseInt_def Let_def

lemma capacity_example_run:
  "keys (run capacity_example (created PUndefined PUndefined (MaxNumber 1))) = [''2::a'']"
  "keyToCache (run capacity_example (created PUndefined PUndefined (MaxNumber 1))) = ''3::b''"
  "vnodeToCache (run capacity_example (created PUndefined PUndefined (MaxNumber 1))) \<noteq> None"
  by (simp_all add: capacity_example_def example_defs eval_defs)

lemma pruneCacheEntry_calls_tag:
  "destroy_calls (pruneCacheEntry key current vm) =
     destroy_calls vm @
       (case cache_get (cache vm) key of
          None \<Rightarrow> []
        | Some entry \<Rightarrow> if tag_differs current entry then [entry_componentInstance entry] else [])"
  by (simp add: pruneCacheEntry_calls tag_differs_def split: option.splits)

lemma pruneCacheEntry_destroy_of:
  "destroy_calls (pruneCacheEntry key current vm) = destroy_calls vm @ destroy_of current (cache vm) key"
  by (simp add: pruneCacheEntry_calls_tag destroy_of_def)

lemma destroy_of_Nil_iff:
  "destroy_of current c key = [] \<longleftrightarrow>
     (\<forall>e. cache_get c key = Some e \<longrightarrow> (\<exists>cur. current = Some cur \<and> entry_tag e = vnode_tag cur))"
  by (auto simp: destroy_of_def tag_differs_def split: option.splits)

lemma pruneCache_step_calls_exact:
  "destroy_calls (pruneCache_step cur f vm a) =
     destroy_calls vm @ (if prunable f (cache vm) a then destroy_of cur (cache vm) a else [])"
  by (auto simp: pruneCache_step_def prunable_def pruneCacheEntry_destroy_of destroy_of_def
      split: option.splits)

lemma destroy_of_step:
  "k \<noteq> a \<Longrightarrow> destroy_of cur (cache (pruneCache_step cur' f vm a)) k = destroy_of cur (cache vm) k"
  by (simp add: destroy_of_def pruneCache_step_cache_get)

lemma pruneCache_fold_calls_exact:
  "distinct ks \<Longrightarrow>
   destroy_calls (foldl (pruneCache_step cur f) vm ks) =
     destroy_calls vm
       @ concat (map (destroy_of cur (cache vm)) (filter (prunable f (cache vm)) ks))"
proof (induction ks arbitrary: vm)
  case Nil
  show ?case by simp
next
  case (Cons a ks)
  let ?vm1 = "pruneCache_step cur f vm a"
  have d: "distinct ks" and a: "a \<notin> set ks"
    using Cons.prems by simp_all
  have f: "filter (prunable f (cache ?vm1)) ks = filter (prunable f (cache vm)) ks"
    using a by (intro filter_cong) (auto simp: prunable_step)
  have ne: "x \<in> set ks \<Longrightarrow> x \<noteq> a" for x
    using a by auto
  have m: "map (destroy_of cur (cache ?vm1)) (filter (prunable f (cache vm)) ks)
             = map (destroy_of cur (cache vm)) (filter (prunable f (cache vm)) ks)"
    by (intro map_cong) (simp_all add: destroy_of_step ne)
  show ?case
    by (simp add: Cons.IH [OF d] f m pruneCache_step_calls_exact)
qed

lemma pruneCache_calls_exact:
  "distinct (map fst (cache vm)) \<Longrightarrow>
   destroy_calls (pruneCache vm f) =
     destroy_calls vm
       @ concat (map (destroy_of (vm_vnode vm) (cache vm))
                   (filter (prunable f (cache vm)) (for_in_keys (cache vm))))"
  by (simp add: pruneCache_def pruneCache_fold_calls_exact distinct_for_in_keys)

lemma cacheVNode_calls_exact:
  "destroy_calls (cacheVNode vm) =
     destroy_calls vm
       @ (case vnodeToCache vm of
            None \<Rightarrow> []
          | Some v \<Rightarrow>
              if over_max (prop_max vm) (Suc (length (keys vm)))
              then destroy_of (vm_vnode vm)
                     (AList.update (keyToCache vm) (Some (entry_of v)) (cache vm))
                     (hd (keys vm @ [keyToCache vm]))
              else [])"
proof (cases "vnodeToCache vm")
  case None
  then show ?thesis by (simp add: cacheVNode_none)
next
  case (Some v)
  show ?thesis
    unfolding cacheVNode_some [OF Some]
    by (simp add: Some pruneCacheEntry_destroy_of)
qed

lemma cacheVNode_evicts_head:
  assumes "vnodeToCache vm \<noteq> None" and "over_max (prop_max vm) (Suc (length (keys vm)))"
  shows "cache_get (cache (cacheVNode vm)) (hd (keys vm @ [keyToCache vm])) = None"
    and "keys (cacheVNode vm) = tl (keys vm @ [keyToCache vm])"
proof -
  obtain v where v: "vnodeToCache vm = Some v"
    using assms(1) by auto
  show "cache_get (cache (cacheVNode vm)) (hd (keys vm @ [keyToCache vm])) = None"
    using assms(2) by (simp add: cacheVNode_some [OF v] cache_get_update)
  show "keys (cacheVNode vm) = tl (keys vm @ [keyToCache vm])"
    using assms(2) by (simp add: keys_cacheVNode_some [OF v])
qed

lemma run_Nil: "run [] vm = vm"
  by (simp add: run_def)

lemma run_Cons: "run (e # es) vm = run es (fire e vm)"
  by (simp add: run_def)

lemma not_cacheable_unset: "\<not> not_cacheable PUndefined PUndefined name"
  by (simp add: not_cacheable_def truthy_pattern_def split: option.splits)

text \<open>
  The order of a for-in loop, the bound of the array indices and \<open>parseInt\<close> on examples.
\<close>

lemma for_in_keys_example:
  "for_in_keys [(''b'', None), (''10'', None), (''a'', None), (''9'', None), (''07'', None)]
     = [''9'', ''10'', ''b'', ''a'', ''07'']"
  by (simp add: for_in_keys_def is_array_index_def is_decimal_def is_digit_of_def
      digit_value_def digits_value_def)

lemma is_array_index_examples:
  "is_array_index ''4294967294''" "\<not> is_array_index ''4294967295''" "is_array_index ''0''"
  "\<not> is_array_index ''-1''" "\<not> is_array_index []"
  by (simp_all add: is_array_index_def is_decimal_def is_digit_of_def
      digit_value_def digits_value_def)

lemma parseInt_examples:
  "parseInt (MaxString ''3'') = Some 3"
  "parseInt (MaxString '' 12px'') = Some 12"
  "parseInt (MaxString ''-7'') = Some (- 7)"
  "parseInt (MaxString ''0x1F'') = Some 31"
  "parseInt (MaxString ''abc'') = None"
  "parseInt (MaxString []) = None"
  "parseInt (MaxNumber 5) = Some 5"
  by (simp_all add: parseInt_def parseInt_string_def parseInt_digits_def is_white_space_def
      is_digit_of_def digit_value_def digits_value_def)

lemma over_max_examples:
  "over_max (MaxString ''2'') 3" "\<not> over_max (MaxString ''2'') 2"
  "\<not> over_max MaxUndefined 100" "\<not> over_max (MaxNumber 0) 100"
  "\<not> over_max (MaxString ''abc'') 100" "over_max (MaxString ''0'') 1"
  by (simp_all add: over_max_def truthy_max_def parseInt_def parseInt_string_def
      parseInt_digits_def is_white_space_def is_digit_of_def digit_value_def digits_value_def)

section \<open>The claims\<close>

text \<open>
  Claim C1, amended. For every removal of a cache entry the destroy call is skipped
  exactly when there is a current node and the tag of the victim entry is the tag of
  that node; the guard compares tags, not instances. For \<open>pruneCacheEntry\<close> the calls
  grow by \<open>destroy_of\<close> of the key, which is empty exactly in that case (or when the key
  holds no entry), the key has no entry afterwards and its first occurrence is gone from
  the key sequence. The capacity eviction of \<open>cacheVNode\<close> issues exactly the calls of the
  head of the key sequence after the insertion, judged against \<open>this._vnode\<close>, when the
  bound is exceeded, and none otherwise; on overflow the head has no entry afterwards and
  is gone from the sequence. \<open>pruneCache\<close> issues exactly the calls of the keys that the
  filter rejects, in for-in order, judged against \<open>this._vnode\<close>; every such key has no
  entry afterwards, every other key keeps what it had, and the key sequence loses exactly
  the rejected keys.
\<close>

theorem destroy_skipped_by_tag:
  "destroy_calls (pruneCacheEntry key current vm)
     = destroy_calls vm @ destroy_of current (cache vm) key
   \<and> cache_get (cache (pruneCacheEntry key current vm)) key = None
   \<and> keys (pruneCacheEntry key current vm) = remove1 key (keys vm)
   \<and> (destroy_of current c key = [] \<longleftrightarrow>
        (\<forall>e. cache_get c key = Some e \<longrightarrow>
           (\<exists>cur. current = Some cur \<and> entry_tag e = vnode_tag cur)))
   \<and> (\<forall>e. cache_get c key = Some e \<and> destroy_of current c key \<noteq> [] \<longrightarrow>
        destroy_of current c key = [entry_componentInstance e])
   \<and> destroy_calls (cacheVNode vm)
     = destroy_calls vm
         @ (case vnodeToCache vm of
              None \<Rightarrow> []
            | Some v \<Rightarrow>
                if over_max (prop_max vm) (Suc (length (keys vm)))
                then destroy_of (vm_vnode vm)
                       (AList.update (keyToCache vm) (Some (entry_of v)) (cache vm))
                       (hd (keys vm @ [keyToCache vm]))
                else [])
   \<and> (vnodeToCache vm \<noteq> None \<and> over_max (prop_max vm) (Suc (length (keys vm))) \<longrightarrow>
        cache_get (cache (cacheVNode vm)) (hd (keys vm @ [keyToCache vm])) = None
        \<and> keys (cacheVNode vm) = tl (keys vm @ [keyToCache vm]))
   \<and> (distinct (map fst (cache vm)) \<longrightarrow>
        destroy_calls (pruneCache vm filter_fn)
          = destroy_calls vm
              @ concat (map (destroy_of (vm_vnode vm) (cache vm))
                          (filter (prunable filter_fn (cache vm)) (for_in_keys (cache vm)))))
   \<and> cache_get (cache (pruneCache vm filter_fn)) k
     = (if prunable filter_fn (cache vm) k then None else cache_get (cache vm) k)
   \<and> (distinct (keys vm) \<longrightarrow>
        keys (pruneCache vm filter_fn)
          = filter (\<lambda>k. \<not> prunable filter_fn (cache vm) k) (keys vm))"
proof -
  have s: "\<forall>e. cache_get c key = Some e \<and> destroy_of current c key \<noteq> [] \<longrightarrow>
        destroy_of current c key = [entry_componentInstance e]"
    by (auto simp: destroy_of_def)
  have e: "vnodeToCache vm \<noteq> None \<and> over_max (prop_max vm) (Suc (length (keys vm))) \<longrightarrow>
        cache_get (cache (cacheVNode vm)) (hd (keys vm @ [keyToCache vm])) = None
        \<and> keys (cacheVNode vm) = tl (keys vm @ [keyToCache vm])"
    using cacheVNode_evicts_head [of vm] by blast
  have p: "distinct (map fst (cache vm)) \<longrightarrow>
        destroy_calls (pruneCache vm filter_fn)
          = destroy_calls vm
              @ concat (map (destroy_of (vm_vnode vm) (cache vm))
                          (filter (prunable filter_fn (cache vm)) (for_in_keys (cache vm))))"
    using pruneCache_calls_exact [of vm filter_fn] by blast
  have k: "distinct (keys vm) \<longrightarrow>
        keys (pruneCache vm filter_fn)
          = filter (\<lambda>k. \<not> prunable filter_fn (cache vm) k) (keys vm)"
    using pruneCache_keys [of vm filter_fn] by blast
  have g: "cache_get (cache (pruneCacheEntry key current vm)) key = None"
    by (simp add: cache_get_update)
  show ?thesis
    using pruneCacheEntry_destroy_of [of key current vm] g
      destroy_of_Nil_iff [of current c key] s cacheVNode_calls_exact [of vm] e p
      pruneCache_cache_get [of vm filter_fn k] k
    by (intro conjI) simp_all
qed

text \<open>
  The claim as the specification words it, with the instance in place of the tag, fails.
  Two nodes of different components carry the same explicit key. The second render pass
  is a hit and puts the cached instance 10 into the node that becomes current; its tag is
  not the tag stored in the entry. The filter change then prunes the entry and destroys
  instance 10, the instance of the current node.
\<close>

theorem destroy_active_counterexample:
  "map_option vnode_componentInstance
     (vm_vnode (run shared_key_example (created PUndefined PUndefined MaxUndefined))) = Some 10
   \<and> destroy_calls (run shared_key_example (created PUndefined PUndefined MaxUndefined)) = [10]"
  by (simp add: shared_key_example_def example_defs eval_defs)

text \<open>
  In a state with two entries whose current node carries the tag of the first, the first
  entry is removed without a destroy call and the second with one, by \<open>pruneCacheEntry\<close>
  and by \<open>pruneCache\<close> alike. An admission over the bound evicts the first entry, without
  a destroy call under that current node and with one when the admitted node is current.
\<close>

theorem destroy_skipped_by_tag_witness:
  "destroy_calls (pruneCacheEntry ''k1'' (vm_vnode same_tag_example) same_tag_example) = []
   \<and> destroy_calls (pruneCacheEntry ''k2'' (vm_vnode same_tag_example) same_tag_example) = [20]
   \<and> keys (pruneCacheEntry ''k1'' (vm_vnode same_tag_example) same_tag_example) = [''k2'']
   \<and> destroy_calls (cacheVNode pending_example) = []
   \<and> cache_get (cache (cacheVNode pending_example)) ''k1'' = None
   \<and> keys (cacheVNode pending_example) = [''k2'', ''k3'']
   \<and> destroy_calls (cacheVNode (pending_example\<lparr>vm_vnode := vnodeToCache pending_example\<rparr>))
       = [10]
   \<and> destroy_calls (pruneCache same_tag_example (\<lambda>name. False)) = [20]
   \<and> cache_get (cache (pruneCache same_tag_example (\<lambda>name. False))) ''k1'' = None
   \<and> keys (pruneCache same_tag_example (\<lambda>name. False)) = []"
proof -
  let ?cur = "vm_vnode same_tag_example"
  let ?c = "cache same_tag_example"
  let ?pe = "pending_example\<lparr>vm_vnode := vnodeToCache pending_example\<rparr>"
  note t1 = destroy_skipped_by_tag [of "''k1''" ?cur same_tag_example ?c "\<lambda>name. False" "''k1''"]
  note t2 = destroy_skipped_by_tag [of "''k2''" ?cur same_tag_example ?c "\<lambda>name. False" "''k2''"]
  note t3 = destroy_skipped_by_tag [of "''k1''" ?cur pending_example ?c "\<lambda>name. False" "''k1''"]
  note t4 = destroy_skipped_by_tag [of "''k1''" ?cur ?pe ?c "\<lambda>name. False" "''k1''"]
  have d1: "destroy_of ?cur ?c ''k1'' = []"
    by (simp add: destroy_of_def tag_differs_def same_tag_example_def cache_get_def example_defs)
  have d2: "destroy_of ?cur ?c ''k2'' = [20]"
    by (simp add: destroy_of_def tag_differs_def same_tag_example_def cache_get_def example_defs)
  have a: "destroy_calls (pruneCacheEntry ''k1'' ?cur same_tag_example) = []
     \<and> keys (pruneCacheEntry ''k1'' ?cur same_tag_example) = [''k2'']"
    using t1 d1 by (simp add: same_tag_example_def)
  have b: "destroy_calls (pruneCacheEntry ''k2'' ?cur same_tag_example) = [20]"
    using t2 d2 by (simp add: same_tag_example_def)
  have o: "over_max (prop_max pending_example) (Suc (length (keys pending_example)))"
    "over_max (prop_max ?pe) (Suc (length (keys ?pe)))"
    by (simp_all add: pending_example_def same_tag_example_def over_max_def truthy_max_def
        parseInt_def)
  have pn: "vnodeToCache pending_example \<noteq> None" "vnodeToCache ?pe \<noteq> None"
    by (simp_all add: pending_example_def)
  from t3 have "destroy_calls (cacheVNode pending_example)
     = destroy_calls pending_example
         @ (case vnodeToCache pending_example of
              None \<Rightarrow> []
            | Some v \<Rightarrow>
                if over_max (prop_max pending_example) (Suc (length (keys pending_example)))
                then destroy_of (vm_vnode pending_example)
                       (AList.update (keyToCache pending_example) (Some (entry_of v))
                          (cache pending_example))
                       (hd (keys pending_example @ [keyToCache pending_example]))
                else [])"
    by blast
  then have c1: "destroy_calls (cacheVNode pending_example) = []"
    by (simp add: pending_example_def same_tag_example_def destroy_of_def tag_differs_def
        cache_get_def example_defs over_max_def truthy_max_def parseInt_def)
  from t3 o(1) pn(1) have "cache_get (cache (cacheVNode pending_example))
        (hd (keys pending_example @ [keyToCache pending_example])) = None
     \<and> keys (cacheVNode pending_example)
        = tl (keys pending_example @ [keyToCache pending_example])"
    by blast
  then have c2: "cache_get (cache (cacheVNode pending_example)) ''k1'' = None
     \<and> keys (cacheVNode pending_example) = [''k2'', ''k3'']"
    by (simp add: pending_example_def same_tag_example_def)
  from t4 have "destroy_calls (cacheVNode ?pe)
     = destroy_calls ?pe
         @ (case vnodeToCache ?pe of
              None \<Rightarrow> []
            | Some v \<Rightarrow>
                if over_max (prop_max ?pe) (Suc (length (keys ?pe)))
                then destroy_of (vm_vnode ?pe)
                       (AList.update (keyToCache ?pe) (Some (entry_of v)) (cache ?pe))
                       (hd (keys ?pe @ [keyToCache ?pe]))
                else [])"
    by blast
  then have c3: "destroy_calls (cacheVNode ?pe) = [10]"
    by (simp add: pending_example_def same_tag_example_def destroy_of_def tag_differs_def
        cache_get_def example_defs over_max_def truthy_max_def parseInt_def)
  have dc: "distinct (map fst ?c)" and dk: "distinct (keys same_tag_example)"
    by (simp_all add: same_tag_example_def)
  have pr: "prunable (\<lambda>name. False) ?c ''k1''" "prunable (\<lambda>name. False) ?c ''k2''"
    by (simp_all add: prunable_def same_tag_example_def cache_get_def)
  have fk: "for_in_keys ?c = [''k1'', ''k2'']"
    by (simp add: same_tag_example_def for_in_keys_def is_array_index_def is_decimal_def
        is_digit_of_def digit_value_def)
  from t1 dc have "destroy_calls (pruneCache same_tag_example (\<lambda>name. False))
          = destroy_calls same_tag_example
              @ concat (map (destroy_of ?cur ?c)
                          (filter (prunable (\<lambda>name. False) ?c) (for_in_keys ?c)))"
    by blast
  then have p1: "destroy_calls (pruneCache same_tag_example (\<lambda>name. False)) = [20]"
    by (simp add: fk pr d1 d2) (simp add: same_tag_example_def)
  from t1 have "cache_get (cache (pruneCache same_tag_example (\<lambda>name. False))) ''k1''
     = (if prunable (\<lambda>name. False) ?c ''k1'' then None else cache_get ?c ''k1'')"
    by blast
  then have p2: "cache_get (cache (pruneCache same_tag_example (\<lambda>name. False))) ''k1'' = None"
    by (simp add: pr)
  from t1 dk have "keys (pruneCache same_tag_example (\<lambda>name. False))
          = filter (\<lambda>k. \<not> prunable (\<lambda>name. False) ?c k) (keys same_tag_example)"
    by blast
  moreover have "keys same_tag_example = [''k1'', ''k2'']"
    by (simp add: same_tag_example_def)
  ultimately have p3: "keys (pruneCache same_tag_example (\<lambda>name. False)) = []"
    by (simp add: pr)
  from a b c1 c2 c3 p1 p2 p3 show ?thesis by blast
qed

text \<open>
  Claim C2. With \<open>max\<close> equal to 3 and no filter, let the nodes A, B and C be admitted in
  this order, let a node with the key of A be rendered again, and let a node D with a
  fourth key be admitted. The second pass for A is a hit: it hands out the instance of A
  and moves the key of A to the end of the sequence. The admission of D then evicts B, the
  head of the sequence: A, C and D are live, B is not, and B's instance is destroyed
  unless its tag is the tag of D.
\<close>

theorem lru_eviction:
  assumes "vnode_componentOptions a = Some oa" and "vnode_componentOptions b = Some ob"
    and "vnode_componentOptions c = Some oc" and "vnode_componentOptions a' = Some oa'"
    and "vnode_componentOptions d = Some od"
    and "resolveKey a oa = ka" and "resolveKey b ob = kb" and "resolveKey c oc = kc"
    and "resolveKey a' oa' = ka" and "resolveKey d od = kd"
    and "distinct [ka, kb, kc, kd]"
    and "parseInt mx = Some 3"
    and "vm = run (lru_scenario a b c a' d) (created PUndefined PUndefined mx)"
  shows "keys (run (take 8 (lru_scenario a b c a' d)) (created PUndefined PUndefined mx))
           = [kb, kc, ka]
     \<and> keys vm = [kc, ka, kd]
     \<and> cache_get (cache vm) kb = None
     \<and> map_option entry_componentInstance (cache_get (cache vm) ka)
          = Some (vnode_componentInstance a)
     \<and> map_option entry_componentInstance (cache_get (cache vm) kc)
          = Some (vnode_componentInstance c)
     \<and> map_option entry_componentInstance (cache_get (cache vm) kd)
          = Some (vnode_componentInstance d)
     \<and> map_option vnode_componentInstance
          (vm_vnode (run (take 8 (lru_scenario a b c a' d)) (created PUndefined PUndefined mx)))
          = Some (vnode_componentInstance a)
     \<and> destroy_calls vm
          = (if vnode_tag b = vnode_tag d then [] else [vnode_componentInstance b])"
proof -
  have o: "over_max mx n = (3 < n)" for n
    using over_max_iff [OF assms(12), of n] by simp
  have ne: "ka \<noteq> kb" "ka \<noteq> kc" "ka \<noteq> kd" "kb \<noteq> kc" "kb \<noteq> kd" "kc \<noteq> kd"
    "kb \<noteq> ka" "kc \<noteq> ka" "kd \<noteq> ka" "kc \<noteq> kb" "kd \<noteq> kb" "kd \<noteq> kc"
    using assms(11) by auto
  show ?thesis
    by (simp add: assms(1-10,13) ne lru_scenario_def created_def run_Cons run_Nil render_def
        cacheVNode_def mounted_def updated_def pruneCacheEntry_def remove_def
        not_cacheable_unset cache_get_def o Let_def)
qed

text \<open>The scenario with four components A, B, C and D.\<close>

theorem lru_eviction_witness:
  "keys (run lru_example (created PUndefined PUndefined (MaxNumber 3)))
     = [''4::C'', ''2::A'', ''5::D'']
   \<and> cache_get (cache (run lru_example (created PUndefined PUndefined (MaxNumber 3)))) ''3::B''
     = None
   \<and> destroy_calls (run lru_example (created PUndefined PUndefined (MaxNumber 3))) = [20]"
proof -
  have e: "lru_example =
      lru_scenario (example_vnode None 2 ''A'' 10) (example_vnode None 3 ''B'' 20)
        (example_vnode None 4 ''C'' 30) (example_vnode None 2 ''A'' 11)
        (example_vnode None 5 ''D'' 40)"
    by (simp add: lru_example_def lru_scenario_def)
  have p: "parseInt (MaxNumber 3) = Some 3"
    by (simp add: parseInt_def)
  have o: "vnode_componentOptions (example_vnode k c n i) = Some (example_options c n)" for k c n i
    by (simp add: example_vnode_def)
  have k: "resolveKey (example_vnode None 2 ''A'' i) (example_options 2 ''A'') = ''2::A''"
    "resolveKey (example_vnode None 3 ''B'' i) (example_options 3 ''B'') = ''3::B''"
    "resolveKey (example_vnode None 4 ''C'' i) (example_options 4 ''C'') = ''4::C''"
    "resolveKey (example_vnode None 5 ''D'' i) (example_options 5 ''D'') = ''5::D''" for i
    by (simp_all add: example_defs resolveKey_def)
  have d: "distinct [''2::A'', ''3::B'', ''4::C'', ''5::D'']"
    by simp
  show ?thesis
    unfolding e
    using lru_eviction [OF o o o o o k(1) k(2) k(3) k(1) k(4) d p refl]
    by (simp add: example_vnode_def)
qed

text \<open>
  Claim C3. Let \<open>max\<close> parse to a positive number \<open>m\<close>. In every state that the component
  reaches from its creation, through any sequence of render passes, hook calls and filter
  changes, the number of live entries is at most \<open>m\<close> and equals the length of the key
  sequence. The capacity check looks at the length after the insertion: an admission in a
  state that holds \<open>m\<close> keys removes the head of the sequence, the least recently used
  key, and its entry, and leaves exactly \<open>m\<close> live entries; an admission in a state with
  fewer keys removes nothing.
\<close>

theorem capacity_invariant:
  assumes "parseInt mx = Some m" and "0 < m" and "vm = run evs (created inc exc mx)"
  shows "int (length (live_keys (cache vm))) \<le> m
     \<and> length (live_keys (cache vm)) = length (keys vm)
     \<and> (vnodeToCache vm \<noteq> None \<and> int (length (keys vm)) = m \<longrightarrow>
          keys (cacheVNode vm) = tl (keys vm) @ [keyToCache vm]
          \<and> cache_get (cache (cacheVNode vm)) (hd (keys vm)) = None
          \<and> int (length (live_keys (cache (cacheVNode vm)))) = m)
     \<and> (vnodeToCache vm \<noteq> None \<and> int (length (keys vm)) < m \<longrightarrow>
          keys (cacheVNode vm) = keys vm @ [keyToCache vm])"
proof -
  have w: "store_inv vm"
    unfolding assms(3) using store_inv_created by (rule store_inv_run)
  have pm: "parseInt (prop_max vm) = Some m"
    using assms(1) by (simp add: assms(3) created_def)
  have b: "int (length (keys vm)) \<le> m"
    unfolding assms(3)
    using assms(2) by (intro bound_run [OF store_inv_created _ assms(2)]) (simp_all add: created_def assms(1))
  have l: "length (live_keys (cache vm)) = length (keys vm)"
    using w by (rule length_live_keys)
  have wc: "store_inv (cacheVNode vm)"
    using w by (rule store_inv_cacheVNode)
  have over: "over_max (prop_max vm) (Suc (length (keys vm))) = (int (length (keys vm)) + 1 > m)"
    using over_max_iff [OF pm, of "Suc (length (keys vm))"] assms(2) by auto
  have full: "keys (cacheVNode vm) = tl (keys vm) @ [keyToCache vm]
          \<and> cache_get (cache (cacheVNode vm)) (hd (keys vm)) = None
          \<and> int (length (live_keys (cache (cacheVNode vm)))) = m"
    if p: "vnodeToCache vm \<noteq> None" and f: "int (length (keys vm)) = m"
  proof -
    obtain v where v: "vnodeToCache vm = Some v"
      using p by auto
    obtain k ks where ks: "keys vm = k # ks"
      using f assms(2) by (cases "keys vm") auto
    have k1: "keys (cacheVNode vm) = tl (keys vm) @ [keyToCache vm]"
      using over f by (simp add: keys_cacheVNode_some [OF v] ks)
    have "cache_get (cache (cacheVNode vm)) (hd (keys vm)) = None"
      using over f by (simp add: cacheVNode_some [OF v] ks cache_get_update)
    moreover have "int (length (live_keys (cache (cacheVNode vm)))) = m"
      using length_live_keys [OF wc] k1 f by (simp add: ks)
    ultimately show ?thesis using k1 by simp
  qed
  have room: "keys (cacheVNode vm) = keys vm @ [keyToCache vm]"
    if p: "vnodeToCache vm \<noteq> None" and f: "int (length (keys vm)) < m"
  proof -
    obtain v where v: "vnodeToCache vm = Some v"
      using p by auto
    show ?thesis
      using over f by (simp add: keys_cacheVNode_some [OF v])
  qed
  show ?thesis
    using b l full room by simp
qed

text \<open>
  With \<open>max\<close> equal to 1, the admission of a second node evicts the first.
\<close>

theorem capacity_invariant_witness:
  "keys (cacheVNode (run capacity_example (created PUndefined PUndefined (MaxNumber 1))))
     = [''3::b'']
   \<and> int (length (live_keys (cache (cacheVNode
         (run capacity_example (created PUndefined PUndefined (MaxNumber 1))))))) = 1"
proof -
  have p: "parseInt (MaxNumber 1) = Some 1"
    by (simp add: parseInt_def)
  show ?thesis
    using capacity_invariant [OF p _ refl, of capacity_example PUndefined PUndefined]
    by (simp add: capacity_example_run)
qed

text \<open>
  Claim C4. A node with an explicit key has that key as its cache key. Without one the
  cache key is the constructor id followed by \<open>::\<close> and the tag when the tag is present
  (a string that is not empty), and the constructor id alone otherwise. Two nodes without
  explicit key and with the same constructor id get different cache keys when their tags
  differ and at least one of the tags is present.
\<close>

theorem resolveKey_spec:
  "(vnode_key v = Some k \<longrightarrow> resolveKey v co = k)
   \<and> (vnode_key v = None \<and> opts_tag co = Some t \<and> t \<noteq> [] \<longrightarrow>
        resolveKey v co = string_of_nat (Ctor_cid (opts_Ctor co)) @ ''::'' @ t)
   \<and> (vnode_key v = None \<and> \<not> truthy (opts_tag co) \<longrightarrow>
        resolveKey v co = string_of_nat (Ctor_cid (opts_Ctor co)))
   \<and> (vnode_key v = None \<and> vnode_key v' = None
        \<and> Ctor_cid (opts_Ctor co) = Ctor_cid (opts_Ctor co')
        \<and> opts_tag co \<noteq> opts_tag co' \<and> (truthy (opts_tag co) \<or> truthy (opts_tag co')) \<longrightarrow>
        resolveKey v co \<noteq> resolveKey v' co')"
  by (auto simp: resolveKey_def truthy_def split: option.splits)

text \<open>The three shapes of a key, and two tags under one constructor.\<close>

theorem resolveKey_spec_witness:
  "resolveKey (example_vnode (Some ''k'') 3 ''foo'' 10) (example_options 3 ''foo'') = ''k''
   \<and> resolveKey (example_vnode None 3 ''foo'' 10) (example_options 3 ''foo'') = ''3::foo''
   \<and> resolveKey (example_vnode None 3 [] 10) (example_options 3 []) = ''3''
   \<and> resolveKey (example_vnode None 3 ''foo'' 10) (example_options 3 ''foo'')
       \<noteq> resolveKey (example_vnode None 3 ''bar'' 20) (example_options 3 ''bar'')"
proof -
  have n: "string_of_nat 3 = ''3''"
    by (simp add: string_of_nat.simps digit_char_def)
  have a: "resolveKey (example_vnode (Some ''k'') 3 ''foo'' 10) (example_options 3 ''foo'') = ''k''"
    using resolveKey_spec [of "example_vnode (Some ''k'') 3 ''foo'' 10" "''k''"
      "example_options 3 ''foo''" "''foo''" "example_vnode None 3 ''bar'' 20"
      "example_options 3 ''bar''"]
    by (simp add: example_vnode_def)
  have b: "resolveKey (example_vnode None 3 ''foo'' 10) (example_options 3 ''foo'') = ''3::foo''
    \<and> resolveKey (example_vnode None 3 ''foo'' 10) (example_options 3 ''foo'')
       \<noteq> resolveKey (example_vnode None 3 ''bar'' 20) (example_options 3 ''bar'')"
    using resolveKey_spec [of "example_vnode None 3 ''foo'' 10" "''k''"
      "example_options 3 ''foo''" "''foo''" "example_vnode None 3 ''bar'' 20"
      "example_options 3 ''bar''"]
    by (auto simp: example_vnode_def example_options_def truthy_def n)
  have c: "resolveKey (example_vnode None 3 [] 10) (example_options 3 []) = ''3''"
    using resolveKey_spec [of "example_vnode None 3 [] 10" "''k''"
      "example_options 3 []" "''foo''" "example_vnode None 3 ''bar'' 20"
      "example_options 3 ''bar''"]
    by (simp add: example_vnode_def example_options_def truthy_def n)
  from a b c show ?thesis by blast
qed

text \<open>
  Claim C5. The watcher of \<open>include\<close> removes exactly the live entries whose declared
  name does not match the new pattern, the watcher of \<open>exclude\<close> exactly those whose
  declared name matches it; every other entry stays as it is. When the key sequence
  lists the live keys once each, it keeps the keys that are still live, in their order.
  With entries named A, B and C and the new include pattern \<open>["A", "C"]\<close>, exactly the
  entry named B goes.
\<close>

theorem filter_change_prunes:
  "cache_get (cache (watch_include val vm)) k =
     (case cache_get (cache vm) k of
        None \<Rightarrow> None
      | Some entry \<Rightarrow>
          (case entry_name entry of
             None \<Rightarrow> Some entry
           | Some n \<Rightarrow> if n \<noteq> [] \<and> \<not> matches val n then None else Some entry))
   \<and> cache_get (cache (watch_exclude val vm)) k =
     (case cache_get (cache vm) k of
        None \<Rightarrow> None
      | Some entry \<Rightarrow>
          (case entry_name entry of
             None \<Rightarrow> Some entry
           | Some n \<Rightarrow> if n \<noteq> [] \<and> matches val n then None else Some entry))
   \<and> (distinct (keys vm) \<and> set (keys vm) = set (live_keys (cache vm)) \<longrightarrow>
        keys (watch_include val vm)
          = filter (\<lambda>k. cache_get (cache (watch_include val vm)) k \<noteq> None) (keys vm)
        \<and> keys (watch_exclude val vm)
          = filter (\<lambda>k. cache_get (cache (watch_exclude val vm)) k \<noteq> None) (keys vm))
   \<and> keys (run abc_example (created PUndefined PUndefined MaxUndefined))
        = [''2::A'', ''3::B'', ''4::C'']
   \<and> keys (fire (IncludeChanged (PArray [''A'', ''C'']))
              (run abc_example (created PUndefined PUndefined MaxUndefined)))
        = [''2::A'', ''4::C'']
   \<and> live_keys (cache (fire (IncludeChanged (PArray [''A'', ''C'']))
              (run abc_example (created PUndefined PUndefined MaxUndefined))))
        = [''2::A'', ''4::C'']"
proof -
  have a: "cache_get (cache (watch_include val vm)) k =
     (case cache_get (cache vm) k of
        None \<Rightarrow> None
      | Some entry \<Rightarrow>
          (case entry_name entry of
             None \<Rightarrow> Some entry
           | Some n \<Rightarrow> if n \<noteq> [] \<and> \<not> matches val n then None else Some entry))"
    by (simp add: watch_include_def pruneCache_cache_get prunable_def split: option.splits)
  have b: "cache_get (cache (watch_exclude val vm)) k =
     (case cache_get (cache vm) k of
        None \<Rightarrow> None
      | Some entry \<Rightarrow>
          (case entry_name entry of
             None \<Rightarrow> Some entry
           | Some n \<Rightarrow> if n \<noteq> [] \<and> matches val n then None else Some entry))"
    by (simp add: watch_exclude_def pruneCache_cache_get prunable_def split: option.splits)
  have c: "distinct (keys vm) \<and> set (keys vm) = set (live_keys (cache vm)) \<longrightarrow>
        keys (watch_include val vm)
          = filter (\<lambda>k. cache_get (cache (watch_include val vm)) k \<noteq> None) (keys vm)
        \<and> keys (watch_exclude val vm)
          = filter (\<lambda>k. cache_get (cache (watch_exclude val vm)) k \<noteq> None) (keys vm)"
    unfolding watch_include_def watch_exclude_def
    using pruneCache_keys_live [of vm] by blast
  have d: "keys (run abc_example (created PUndefined PUndefined MaxUndefined))
        = [''2::A'', ''3::B'', ''4::C'']"
    by (simp add: abc_example_def example_defs eval_defs)
  have e: "keys (fire (IncludeChanged (PArray [''A'', ''C'']))
              (run abc_example (created PUndefined PUndefined MaxUndefined)))
        = [''2::A'', ''4::C'']"
    by (simp add: abc_example_def example_defs eval_defs)
  have f: "live_keys (cache (fire (IncludeChanged (PArray [''A'', ''C'']))
              (run abc_example (created PUndefined PUndefined MaxUndefined))))
        = [''2::A'', ''4::C'']"
    by (simp add: abc_example_def example_defs eval_defs live_keys_def)
  from a b c d e f show ?thesis by blast
qed

text \<open>
  A change of \<open>include\<close> to \<open>["a"]\<close> removes the entry named b; a change of \<open>exclude\<close> to
  \<open>"a,c"\<close> removes the entry named a.
\<close>

theorem filter_change_prunes_witness:
  "cache_get (cache (watch_include (PArray [''a'']) same_tag_example)) ''k2'' = None
   \<and> cache_get (cache (watch_exclude (PString ''a,c'') same_tag_example)) ''k1'' = None
   \<and> keys (watch_include (PArray [''a'']) same_tag_example) = [''k1'']
   \<and> keys (watch_exclude (PString ''a,c'') same_tag_example) = [''k2'']"
proof -
  have h: "distinct (keys same_tag_example)
             \<and> set (keys same_tag_example) = set (live_keys (cache same_tag_example))"
    by (simp add: same_tag_example_def live_keys_def cache_get_def)
  note t1 = filter_change_prunes [of "PArray [''a'']" same_tag_example "''k1''"]
  note t2 = filter_change_prunes [of "PArray [''a'']" same_tag_example "''k2''"]
  note t3 = filter_change_prunes [of "PString ''a,c''" same_tag_example "''k1''"]
  note t4 = filter_change_prunes [of "PString ''a,c''" same_tag_example "''k2''"]
  have i1: "cache_get (cache (watch_include (PArray [''a'']) same_tag_example)) ''k1'' \<noteq> None"
    using t1 by (simp add: same_tag_example_def cache_get_def)
  have i2: "cache_get (cache (watch_include (PArray [''a'']) same_tag_example)) ''k2'' = None"
    using t2 by (simp add: same_tag_example_def cache_get_def)
  have e1: "cache_get (cache (watch_exclude (PString ''a,c'') same_tag_example)) ''k1'' = None"
    using t3 by (simp add: same_tag_example_def cache_get_def)
  have e2: "cache_get (cache (watch_exclude (PString ''a,c'') same_tag_example)) ''k2'' \<noteq> None"
    using t4 by (simp add: same_tag_example_def cache_get_def)
  have ks: "keys same_tag_example = [''k1'', ''k2'']"
    by (simp add: same_tag_example_def)
  from t1 h have "keys (watch_include (PArray [''a'']) same_tag_example)
          = filter (\<lambda>k. cache_get (cache (watch_include (PArray [''a'']) same_tag_example)) k \<noteq> None)
              (keys same_tag_example)"
    by blast
  then have k1: "keys (watch_include (PArray [''a'']) same_tag_example) = [''k1'']"
    using i1 i2 by (simp add: ks)
  from t3 h have "keys (watch_exclude (PString ''a,c'') same_tag_example)
          = filter (\<lambda>k. cache_get (cache (watch_exclude (PString ''a,c'') same_tag_example)) k \<noteq> None)
              (keys same_tag_example)"
    by blast
  then have k2: "keys (watch_exclude (PString ''a,c'') same_tag_example) = [''k2'']"
    using e1 e2 by (simp add: ks)
  from i2 e1 k1 k2 show ?thesis by blast
qed

text \<open>
  Claim C6. In every state that the component reaches from its creation, \<open>destroyed\<close>
  empties the key sequence, leaves no key with an entry, and issues one destroy call for
  each live entry, in the order of the for-in loop, whatever the current node is. The
  number of these entries is the number of keys that were live.
\<close>

theorem destroyed_complete:
  "keys (destroyed (run evs (created inc exc mx))) = []
   \<and> cache_get (cache (destroyed (run evs (created inc exc mx)))) k = None
   \<and> destroy_calls (destroyed (run evs (created inc exc mx)))
       = destroy_calls (run evs (created inc exc mx))
           @ map entry_componentInstance (live_entries (cache (run evs (created inc exc mx))))
   \<and> length (live_entries (cache (run evs (created inc exc mx))))
       = length (keys (run evs (created inc exc mx)))"
proof -
  have w: "store_inv (run evs (created inc exc mx))"
    using store_inv_created by (rule store_inv_run)
  show ?thesis
    using destroyed_wf [OF w] by simp
qed

text \<open>
  After the scenario of the least recently used key three entries are live;
  \<open>destroyed\<close> destroys all three, the instance of the current node among them.
\<close>

theorem destroyed_complete_witness:
  "keys (destroyed (run lru_example (created PUndefined PUndefined (MaxNumber 3)))) = []
   \<and> cache_get (cache (destroyed (run lru_example (created PUndefined PUndefined (MaxNumber 3)))))
        ''5::D'' = None
   \<and> destroy_calls (destroyed (run lru_example (created PUndefined PUndefined (MaxNumber 3))))
        = [20, 10, 30, 40]"
proof -
  have c: "destroy_calls (run lru_example (created PUndefined PUndefined (MaxNumber 3))) = [20]"
    by (simp add: lru_example_def example_defs eval_defs)
  have l: "map entry_componentInstance
             (live_entries (cache (run lru_example (created PUndefined PUndefined (MaxNumber 3)))))
           = [10, 30, 40]"
    by (simp add: lru_example_def example_defs eval_defs live_entries_def map_filter_simps)
  show ?thesis
    using destroyed_complete [of lru_example PUndefined PUndefined "MaxNumber 3" "''5::D''"]
    by (simp add: c l)
qed

text \<open>
  Claim C7. On a miss (the candidate passes the filter check and the cache holds no entry
  under its key) \<open>render\<close> leaves the cache, the keys and the destroy calls as they were
  and records the node, with its flag set, and its key in the pending slot. The hooks
  \<open>mounted\<close> and \<open>updated\<close> are the same function; called next, whatever node the host
  has made current, it empties the pending slot, appends the key to the key sequence and
  runs the capacity check, which drops the head of the sequence when the bound is
  exceeded; without overflow the entry of the node is in the cache under the key and
  nothing is destroyed. A second call of the hook changes nothing.
\<close>

theorem render_miss_defers:
  assumes "vnode_componentOptions vnode = Some co"
    and "\<not> not_cacheable (prop_include vm) (prop_exclude vm) (getComponentName (Some co))"
    and "cache_get (cache vm) (resolveKey vnode co) = None"
    and "render (Some vnode) slot0 vm = (r, vm')"
    and "vm'' = vm'\<lparr>vm_vnode := cur\<rparr>"
  shows "r = Some (vnode\<lparr>vnode_keepAlive := True\<rparr>)
     \<and> cache vm' = cache vm \<and> keys vm' = keys vm \<and> destroy_calls vm' = destroy_calls vm
     \<and> vnodeToCache vm' = r \<and> keyToCache vm' = resolveKey vnode co
     \<and> mounted vm'' = updated vm''
     \<and> vnodeToCache (updated vm'') = None
     \<and> keys (updated vm'') =
         (if over_max (prop_max vm) (Suc (length (keys vm)))
          then tl (keys vm @ [resolveKey vnode co]) else keys vm @ [resolveKey vnode co])
     \<and> (\<not> over_max (prop_max vm) (Suc (length (keys vm))) \<longrightarrow>
          cache_get (cache (updated vm'')) (resolveKey vnode co)
            = Some \<lparr>entry_name = getComponentName (Some co), entry_tag = vnode_tag vnode,
                    entry_componentInstance = vnode_componentInstance vnode\<rparr>
          \<and> destroy_calls (updated vm'') = destroy_calls vm)
     \<and> cacheVNode (updated vm'') = updated vm''"
proof -
  let ?v = "vnode\<lparr>vnode_keepAlive := True\<rparr>"
  let ?k = "resolveKey vnode co"
  have r: "r = Some ?v" and vm': "vm' = vm\<lparr>vnodeToCache := Some ?v, keyToCache := ?k\<rparr>"
    using render_miss [OF assms(1-3), of slot0] assms(4) by simp_all
  have p: "vnodeToCache vm'' = Some ?v"
    by (simp add: assms(5) vm')
  have hd_tl: "remove1 (hd (keys vm @ [?k])) (keys vm @ [?k]) = tl (keys vm @ [?k])"
    by (cases "keys vm") simp_all
  have u: "vnodeToCache (updated vm'') = None"
    unfolding updated_def cacheVNode_some [OF p] by simp
  have ks: "keys (updated vm'') =
         (if over_max (prop_max vm) (Suc (length (keys vm)))
          then tl (keys vm @ [?k]) else keys vm @ [?k])"
    unfolding updated_def cacheVNode_some [OF p] using hd_tl by (simp add: assms(5) vm')
  have c: "\<not> over_max (prop_max vm) (Suc (length (keys vm))) \<Longrightarrow>
          cache_get (cache (updated vm'')) ?k
            = Some \<lparr>entry_name = getComponentName (Some co), entry_tag = vnode_tag vnode,
                    entry_componentInstance = vnode_componentInstance vnode\<rparr>
          \<and> destroy_calls (updated vm'') = destroy_calls vm"
    unfolding updated_def cacheVNode_some [OF p]
    by (simp add: assms(5) vm' cache_get_update entry_of_def assms(1))
  have n: "cacheVNode (updated vm'') = updated vm''"
    using u by (rule cacheVNode_none)
  show ?thesis
    using r vm' u ks c n by (simp add: mounted_def updated_def)
qed

text \<open>The first render pass of a new component and the hook after it.\<close>

theorem render_miss_defers_witness:
  "keys (updated (snd (render (Some (example_vnode None 3 ''b'' 10)) None
                        (created PUndefined PUndefined (MaxNumber 2)))
                  \<lparr>vm_vnode := Some (example_vnode None 3 ''b'' 10)\<rparr>)) = [''3::b'']
   \<and> cache (snd (render (Some (example_vnode None 3 ''b'' 10)) None
                        (created PUndefined PUndefined (MaxNumber 2)))) = []"
proof -
  let ?v = "example_vnode None 3 ''b'' 10"
  let ?vm = "created PUndefined PUndefined (MaxNumber 2)"
  have h1: "vnode_componentOptions ?v = Some (example_options 3 ''b'')"
    by (simp add: example_vnode_def)
  have h2: "\<not> not_cacheable (prop_include ?vm) (prop_exclude ?vm)
               (getComponentName (Some (example_options 3 ''b'')))"
    by (simp add: example_defs not_cacheable_def truthy_pattern_def getComponentName_def truthy_def)
  have k: "resolveKey ?v (example_options 3 ''b'') = ''3::b''"
    by (simp add: example_defs resolveKey_def)
  have h3: "cache_get (cache ?vm) (resolveKey ?v (example_options 3 ''b'')) = None"
    by (simp add: created_def cache_get_def)
  have h4: "render (Some ?v) None ?vm = (fst (render (Some ?v) None ?vm), snd (render (Some ?v) None ?vm))"
    by simp
  have o: "\<not> over_max (prop_max ?vm) (Suc (length (keys ?vm)))"
    by (simp add: created_def over_max_def truthy_max_def parseInt_def)
  note t = render_miss_defers [OF h1 h2 h3 h4 refl, of "Some ?v"]
  from t have c: "cache (snd (render (Some ?v) None ?vm)) = cache ?vm"
    by blast
  from t have "keys (updated (snd (render (Some ?v) None ?vm)\<lparr>vm_vnode := Some ?v\<rparr>)) =
         (if over_max (prop_max ?vm) (Suc (length (keys ?vm)))
          then tl (keys ?vm @ [resolveKey ?v (example_options 3 ''b'')])
          else keys ?vm @ [resolveKey ?v (example_options 3 ''b'')])"
    by blast
  then have "keys (updated (snd (render (Some ?v) None ?vm)\<lparr>vm_vnode := Some ?v\<rparr>)) = [''3::b'']"
    using o by (simp add: k) (simp add: created_def)
  then show ?thesis
    using c by (simp add: created_def)
qed

text \<open>
  Claim C8. \<open>matches(pattern, name)\<close> is true exactly when the pattern is an array that
  has the name as an element, or a string one of whose parts between commas is the name,
  or a regular expression whose test accepts the name. Every other pattern gives false;
  the function has no failing branch. The four rows of the table of the specification
  hold.
\<close>

theorem matches_spec:
  "(matches p name \<longleftrightarrow>
      (\<exists>xs. p = PArray xs \<and> name \<in> set xs)
      \<or> (\<exists>s. p = PString s \<and> name \<in> set (split_comma s))
      \<or> (\<exists>test. p = PRegExp test \<and> test name))
   \<and> matches PUndefined name = False \<and> matches PObject name = False
   \<and> matches (PArray [''a'', ''b'']) ''a'' = True
   \<and> matches (PString ''a,b'') ''c'' = False
   \<and> matches (PRegExp regexp_caret_x) ''xyz'' = True
   \<and> matches (PRegExp regexp_caret_x) ''yz'' = False"
  by (cases p) (simp_all add: indexOf_nonneg_iff regexp_caret_x_def)

text \<open>A string pattern, and a value that is no pattern.\<close>

theorem matches_spec_witness:
  "matches (PString ''foo,bar'') ''bar'' \<and> \<not> matches (PString ''foo,bar'') ''ba''
   \<and> \<not> matches PObject ''bar''"
  using matches_spec [of "PString ''foo,bar''" "''bar''"]
    matches_spec [of "PString ''foo,bar''" "''ba''"] matches_spec [of PObject "''bar''"]
  by simp

text \<open>
  Claim C9. When the candidate of a render pass fails the filter check (an include
  pattern is set and the name of the candidate is missing or does not match it, or an
  exclude pattern is set and the name matches it), \<open>render\<close> returns the candidate as it
  came, with the instance and the keep-alive flag untouched, and leaves the whole state
  of the component, so the cache, the keys and the pending slot, as it was.
\<close>

theorem render_not_cacheable:
  assumes "vnode_componentOptions vnode = Some co"
    and "(truthy_pattern (prop_include vm)
            \<and> \<not> (\<exists>n. getComponentName (Some co) = Some n \<and> n \<noteq> [] \<and> matches (prop_include vm) n))
         \<or> (truthy_pattern (prop_exclude vm)
            \<and> (\<exists>n. getComponentName (Some co) = Some n \<and> n \<noteq> [] \<and> matches (prop_exclude vm) n))"
  shows "render (Some vnode) slot0 vm = (Some vnode, vm)"
proof -
  have "not_cacheable (prop_include vm) (prop_exclude vm) (getComponentName (Some co))"
    using assms(2) by (auto simp: not_cacheable_def split: option.splits)
  then show ?thesis
    using assms(1) by (simp add: render_def)
qed

text \<open>A component named b under the include pattern \<open>["a"]\<close>.\<close>

theorem render_not_cacheable_witness:
  "render (Some (example_vnode None 3 ''b'' 10)) None (created (PArray [''a'']) PUndefined MaxUndefined)
     = (Some (example_vnode None 3 ''b'' 10), created (PArray [''a'']) PUndefined MaxUndefined)"
  by (rule render_not_cacheable [where co = "example_options 3 ''b''"])
     (simp_all add: example_vnode_def example_options_def created_def truthy_pattern_def
        getComponentName_def truthy_def)

text \<open>
  Claim C10. A live entry that has no declared name (the name is absent, or the empty
  string, which JavaScript treats alike) survives \<open>pruneCache\<close> under every filter: the
  entry stays in the cache unchanged and its key stays in the key sequence. An entry that
  \<open>pruneCache\<close> removes has a declared name.
\<close>

theorem pruneCache_keeps_unnamed:
  assumes "cache_get (cache vm) k = Some entry"
  shows "(\<not> truthy (entry_name entry) \<longrightarrow>
            cache_get (cache (pruneCache vm filter_fn)) k = Some entry
            \<and> (k \<in> set (keys vm) \<longrightarrow> k \<in> set (keys (pruneCache vm filter_fn))))
         \<and> (cache_get (cache (pruneCache vm filter_fn)) k = None \<longrightarrow> truthy (entry_name entry))"
proof -
  have np: "\<not> truthy (entry_name entry) \<Longrightarrow> \<not> prunable filter_fn (cache vm) k"
    using assms by (auto simp: prunable_def truthy_def split: option.splits)
  have a: "\<not> truthy (entry_name entry) \<Longrightarrow> cache_get (cache (pruneCache vm filter_fn)) k = Some entry"
    using assms np by (simp add: pruneCache_cache_get)
  have b: "\<not> truthy (entry_name entry) \<Longrightarrow> k \<in> set (keys vm) \<Longrightarrow>
             k \<in> set (keys (pruneCache vm filter_fn))"
    using np by (simp add: pruneCache_def pruneCache_fold_keeps_key)
  have c: "cache_get (cache (pruneCache vm filter_fn)) k = None \<Longrightarrow> truthy (entry_name entry)"
    using assms by (auto simp: pruneCache_cache_get prunable_def truthy_def split: option.splits if_splits)
  from a b c show ?thesis by blast
qed

text \<open>An entry without name under a filter that rejects every name.\<close>

theorem pruneCache_keeps_unnamed_witness:
  "cache_get (cache (pruneCache unnamed_example (\<lambda>name. matches (PArray []) name))) ''7''
     = Some \<lparr>entry_name = None, entry_tag = Some ''vue-component-7'', entry_componentInstance = 1\<rparr>
   \<and> ''7'' \<in> set (keys (pruneCache unnamed_example (\<lambda>name. matches (PArray []) name)))"
proof -
  have g: "cache_get (cache unnamed_example) ''7''
     = Some \<lparr>entry_name = None, entry_tag = Some ''vue-component-7'', entry_componentInstance = 1\<rparr>"
    by (simp add: unnamed_example_def cache_get_def)
  have k: "''7'' \<in> set (keys unnamed_example)"
    by (simp add: unnamed_example_def)
  show ?thesis
    using pruneCache_keeps_unnamed [OF g, of "\<lambda>name. matches (PArray []) name"] k
    by (simp add: truthy_def)
qed

end
